theory Spec2Isabelle
  imports Main
begin

section \<open>Order processing: sequential, with goroutines, with a WaitGroup\<close>

text \<open>
  The repository holds two Go programs. \<^verbatim>\<open>01-sequential-synchronous/main.go\<close> processes
  a slice of orders one after another. \<^verbatim>\<open>02-goroutines-and-waitgroups/main.go\<close> runs the
  same work in goroutines, first with \<^verbatim>\<open>time.Sleep\<close> as the only synchronisation and
  then with a \<^verbatim>\<open>sync.WaitGroup\<close>.

  The sequential program is embedded as functions that thread the output log. The
  concurrent program is embedded as the statements each goroutine executes, run by an
  interleaving step function: a schedule is the list of goroutine numbers in the order
  in which they take their steps, and a property of the program is a property of every
  schedule.
\<close>

subsection \<open>Orders\<close>

text \<open>
  \<^verbatim>\<open>type Order struct { ID int; PrepTime time.Duration }\<close>. A \<^verbatim>\<open>time.Duration\<close> is a
  count of nanoseconds; no arithmetic beyond the constant products below is done on it.
\<close>

record Order =
  ID :: int
  PrepTime :: int

definition Second :: int where
  "Second = 1000000000"

text \<open>The zero value of the struct, which Go gives to a variable before its first assignment.\<close>

definition zero_Order :: Order where
  "zero_Order = \<lparr>ID = 0, PrepTime = 0\<rparr>"

subsection \<open>The sequential program (01-sequential-synchronous/main.go)\<close>

text \<open>
  What the program does to the outside world, in the order in which it does it. The
  texts of the messages are shortened to their ASCII part.
\<close>

datatype effect =
    Println string
  | Printf_Started int
  | Sleep int
  | Printf_Ready int int
  | Time_Now
  | Printf_Total

text \<open>
  \<^verbatim>\<open>func processOrder(order Order)\<close>, lines 13 to 22: prints the start message, sleeps for
  the preparation time, prints the completion message. The log is passed in and returned.
\<close>

definition processOrder_01 :: "Order \<Rightarrow> effect list \<Rightarrow> effect list" where
  "processOrder_01 order w =
     w @ [Printf_Started (ID order), Sleep (PrepTime order),
          Printf_Ready (ID order) (PrepTime order)]"

text \<open>\<^verbatim>\<open>for _, order := range orders { processOrder(order) }\<close>, lines 41 to 43.\<close>

fun range_orders_01 :: "Order list \<Rightarrow> effect list \<Rightarrow> effect list" where
  "range_orders_01 [] w = w"
| "range_orders_01 (order # rest) w = range_orders_01 rest (processOrder_01 order w)"

definition orders_01 :: "Order list" where
  "orders_01 =
     [\<lparr>ID = 1, PrepTime = 2 * Second\<rparr>, \<lparr>ID = 2, PrepTime = 3 * Second\<rparr>,
      \<lparr>ID = 3, PrepTime = 1 * Second\<rparr>, \<lparr>ID = 4, PrepTime = 4 * Second\<rparr>,
      \<lparr>ID = 5, PrepTime = 2 * Second\<rparr>]"

text \<open>
  \<^verbatim>\<open>func main()\<close>, lines 24 to 48, with the slice literal of lines 32 to 38 taken as a
  parameter; \<open>main_01\<close> is the function at the literal.
\<close>

definition main_01_on :: "Order list \<Rightarrow> effect list" where
  "main_01_on orders =
     range_orders_01 orders
       [Println ''Sequential Synchronous Order Processing System'',
        Println ''Processing started'', Time_Now]
     @ [Printf_Total, Println ''Note: Orders processed sequentially - one after another'']"

definition main_01 :: "effect list" where
  "main_01 = main_01_on orders_01"

text \<open>
  A reader of the log: it accepts a log in which every invocation of \<open>processOrder\<close> is a
  start message, the sleep and the completion message of the same order, one directly
  after the other, and returns the orders in the sequence in which they were processed.
  A start message that is not followed by its own sleep and completion (an invocation cut
  short, or two invocations overlapping) makes it return \<open>None\<close>.
\<close>

fun invocations :: "effect list \<Rightarrow> Order list option" where
  "invocations [] = Some []"
| "invocations (Printf_Started i # Sleep d # Printf_Ready j e # w) =
     (if i = j \<and> d = e
      then (case invocations w of
              None \<Rightarrow> None
            | Some os \<Rightarrow> Some (\<lparr>ID = i, PrepTime = d\<rparr> # os))
      else None)"
| "invocations (Println t # w) = invocations w"
| "invocations (Time_Now # w) = invocations w"
| "invocations (Printf_Total # w) = invocations w"
| "invocations w = None"

subsection \<open>The concurrent program: statements\<close>

text \<open>
  An operand of type \<open>Order\<close>: a value, a variable (by its address in the store shared by
  all goroutines), or the parameter of the function literal the statement stands in.
\<close>

datatype arg = Lit Order | Var nat | Param

text \<open>
  The calls the program makes. \<open>Printf\<close> stands for a \<^verbatim>\<open>fmt.Printf\<close> or \<^verbatim>\<open>fmt.Println\<close>
  whose operands are no order (a banner, an elapsed time, \<^verbatim>\<open>runtime.NumGoroutine()\<close>);
  \<open>PrintfOrder\<close> prints fields of an order; \<open>TimeSleepPrep x\<close> is
  \<^verbatim>\<open>time.Sleep(x.PrepTime)\<close>; \<open>WgAdd\<close>, \<open>WgDone\<close>, \<open>WgWait\<close> are the methods of the
  function's \<^verbatim>\<open>sync.WaitGroup\<close>; \<open>ProcessOrder x\<close> is \<^verbatim>\<open>processOrder(x)\<close>.
\<close>

datatype call =
    Printf string
  | PrintfOrder string arg
  | TimeNow
  | TimeSleep int
  | TimeSleepPrep arg
  | WgAdd int
  | WgDone
  | WgWait
  | ProcessOrder arg

text \<open>
  Statements: a call, \<^verbatim>\<open>defer\<close> of a call, \<^verbatim>\<open>go\<close> of a function literal (with the
  argument it is applied to, if it has a parameter), the assignment of an order to a
  variable, and \<^verbatim>\<open>return\<close>. \<^verbatim>\<open>go f(x)\<close> of a named function is
  \<open>Go (Some x) [Do (f Param)]\<close>: Go evaluates \<open>x\<close> in the launching goroutine.
\<close>

datatype stmt =
    Do call
  | Defer call
  | Go "arg option" "stmt list"
  | Assign nat Order
  | Return

text \<open>
  \<^verbatim>\<open>func processOrder(order Order)\<close> of 02-goroutines-and-waitgroups/main.go, lines 16
  to 20, as the calls of its body over its parameter.
\<close>

definition processOrder_02 :: "arg \<Rightarrow> call list" where
  "processOrder_02 order =
     [PrintfOrder ''Order %d: Started processing'' order,
      TimeSleepPrep order,
      PrintfOrder ''Order %d: Ready for pickup! Time taken: %v'' order]"

text \<open>
  The variable of \<^verbatim>\<open>for _, order := range orders\<close>. Up to Go 1.21 the loop has one
  variable, assigned at each iteration (\<open>PerLoop\<close>); from Go 1.22 each iteration has a
  variable of its own (\<open>PerIteration\<close>). The sources carry no \<^verbatim>\<open>go.mod\<close>, so the
  language version is a parameter of every function with such a loop.
\<close>

datatype loopvar = PerLoop | PerIteration

fun slot :: "loopvar \<Rightarrow> nat \<Rightarrow> nat" where
  "slot PerLoop i = 0"
| "slot PerIteration i = i"

text \<open>
  The loop, unrolled over the slice: iteration \<open>i\<close> assigns the element to the loop
  variable and runs the body, which refers to the variable by \<open>Var\<close>.
\<close>

fun for_range :: "loopvar \<Rightarrow> nat \<Rightarrow> Order list \<Rightarrow> (arg \<Rightarrow> stmt list) \<Rightarrow> stmt list" where
  "for_range lv i [] body = []"
| "for_range lv i (v # vs) body =
     Assign (slot lv i) v # body (Var (slot lv i)) @ for_range lv (Suc i) vs body"

definition orders_02 :: "Order list" where
  "orders_02 =
     [\<lparr>ID = 1, PrepTime = 2 * Second\<rparr>, \<lparr>ID = 2, PrepTime = 3 * Second\<rparr>,
      \<lparr>ID = 3, PrepTime = 1 * Second\<rparr>, \<lparr>ID = 4, PrepTime = 4 * Second\<rparr>,
      \<lparr>ID = 5, PrepTime = 2 * Second\<rparr>]"

subsection \<open>The concurrent program: the functions of 02-goroutines-and-waitgroups/main.go\<close>

text \<open>
  Each function is the list of statements of its body. A function that ranges over the
  slice literal takes the slice as a parameter (\<open>_of\<close>); the function itself is that at
  the literal. \<^verbatim>\<open>var wg sync.WaitGroup\<close> declares a counter that starts at zero: it is
  the counter of the initial state below.
\<close>

text \<open>\<^verbatim>\<open>func sequentialProcessing()\<close>, lines 165 to 183.\<close>

definition sequentialProcessing_of :: "loopvar \<Rightarrow> Order list \<Rightarrow> stmt list" where
  "sequentialProcessing_of lv orders =
     [Do (Printf ''=== 0. SEQUENTIAL PROCESSING (Original) ===''), Do TimeNow]
     @ for_range lv 0 orders (\<lambda>order. [Do (ProcessOrder order)])
     @ [Do (Printf ''Sequential processing time: %v'')]"

definition sequentialProcessing :: "loopvar \<Rightarrow> stmt list" where
  "sequentialProcessing lv = sequentialProcessing_of lv orders_02"

text \<open>\<^verbatim>\<open>func simpleGoroutine()\<close>, lines 23 to 39; the variable \<open>order\<close> is at address 0.\<close>

definition simpleGoroutine :: "stmt list" where
  "simpleGoroutine =
     [Do (Printf ''=== 1. SIMPLE GOROUTINE ===''),
      Assign 0 \<lparr>ID = 1, PrepTime = 2 * Second\<rparr>,
      Do (Printf ''Before starting goroutine''),
      Go (Some (Var 0)) [Do (ProcessOrder Param)],
      Do (Printf ''After starting goroutine - main continues immediately!''),
      Do (TimeSleep (3 * Second))]"

text \<open>\<^verbatim>\<open>func multipleGoroutines()\<close>, lines 42 to 63.\<close>

definition multipleGoroutines_of :: "loopvar \<Rightarrow> Order list \<Rightarrow> stmt list" where
  "multipleGoroutines_of lv orders =
     [Do (Printf ''=== 2. MULTIPLE GOROUTINES (Concurrent Processing) ===''), Do TimeNow]
     @ for_range lv 0 orders (\<lambda>order. [Go (Some order) [Do (ProcessOrder Param)]])
     @ [Do (TimeSleep (5 * Second)), Do (Printf ''Concurrent processing time: %v'')]"


text \<open>
  \<^verbatim>\<open>func goroutinesWithWaitGroup()\<close>, lines 73 to 100. The function literal of lines 90
  to 93 has the parameter \<open>o\<close> and is applied to the loop variable.
\<close>

definition goroutinesWithWaitGroup_of :: "loopvar \<Rightarrow> Order list \<Rightarrow> stmt list" where
  "goroutinesWithWaitGroup_of lv orders =
     [Do (Printf ''=== 3. GOROUTINES WITH WAITGROUP (Proper Sync) ===''), Do TimeNow]
     @ for_range lv 0 orders
         (\<lambda>order. [Do (WgAdd 1), Go (Some order) [Defer WgDone, Do (ProcessOrder Param)]])
     @ [Do WgWait,
        Do (Printf ''Sequential Processing time: 12s''),
        Do (Printf ''Concurrent processing time: %v'')]"

definition goroutinesWithWaitGroup :: "loopvar \<Rightarrow> stmt list" where
  "goroutinesWithWaitGroup lv = goroutinesWithWaitGroup_of lv orders_02"

text \<open>
  \<^verbatim>\<open>func anonymousGoroutines()\<close>, lines 103 to 130. \<open>vipOrder\<close> is at address 0 and the
  first goroutine's local \<open>rushOrder\<close> at address 1. \<open>customerName\<close> is assigned once, so
  the string parameter \<open>name\<close> is the constant and is part of the message.
\<close>

definition anonymousGoroutines :: "stmt list" where
  "anonymousGoroutines =
     [Do (Printf ''=== 4. ANONYMOUS GOROUTINES ===''),
      Do (WgAdd 1),
      Go None
        [Defer WgDone,
         Assign 1 \<lparr>ID = 1, PrepTime = 2 * Second\<rparr>,
         Do (Printf ''Rush Order: Processing immediately!''),
         Do (ProcessOrder (Var 1))],
      Assign 0 \<lparr>ID = 2, PrepTime = 1 * Second\<rparr>,
      Do (WgAdd 1),
      Go (Some (Var 0))
        [Defer WgDone,
         Do (PrintfOrder ''VIP Order %d for Alice: Started processing'' Param),
         Do (TimeSleepPrep Param),
         Do (PrintfOrder
               ''VIP Order %d for Alice: Ready for pickup! Time taken: %v (Priority Service)''
               Param)],
      Do WgWait]"

text \<open>
  \<^verbatim>\<open>func goroutineRuntimeInfo()\<close>, lines 133 to 162. The function literal of lines 151
  to 154 has no parameter: its body names the loop variable.
\<close>

definition goroutineRuntimeInfo_of :: "loopvar \<Rightarrow> Order list \<Rightarrow> stmt list" where
  "goroutineRuntimeInfo_of lv orders =
     [Do (Printf ''=== 5. GOROUTINE RUNTIME INFO ===''),
      Do (Printf ''Initial goroutines count: %d'')]
     @ for_range lv 0 orders
         (\<lambda>order. [Do (WgAdd 1), Go None [Defer WgDone, Do (ProcessOrder order)]])
     @ [Do (Printf ''After starting order processing, goroutines count: %d''),
        Do WgWait,
        Do (Printf ''Final goroutines count: %d'')]"

definition goroutineRuntimeInfo :: "loopvar \<Rightarrow> stmt list" where
  "goroutineRuntimeInfo lv = goroutineRuntimeInfo_of lv orders_02"


subsection \<open>The concurrent program: goroutines and their steps\<close>

text \<open>
  A goroutine is the statements it has still to execute and the calls it has deferred,
  the last deferred first. Goroutine 0 runs the function (the coordinator); the
  goroutines it launches are numbered from 1 in the order of their \<^verbatim>\<open>go\<close> statements,
  goroutine \<open>Suc j\<close> being entry \<open>j\<close> of the pool. The trace records every statement
  executed, with its operands evaluated, the latest first.
\<close>

record thread =
  code :: "stmt list"
  deferred :: "call list"

record state =
  coord :: thread
  pool :: "thread list"
  wg :: int
  store :: "nat \<Rightarrow> Order"
  trace :: "(nat \<times> stmt) list"
  panicked :: bool

definition init :: "stmt list \<Rightarrow> state" where
  "init prog =
     \<lparr>coord = \<lparr>code = prog, deferred = []\<rparr>, pool = [], wg = 0,
      store = (\<lambda>a. zero_Order), trace = [], panicked = False\<rparr>"

text \<open>
  Evaluation of an operand. A parameter is replaced by its value when the goroutine is
  launched; one that is still there is bound nowhere and reads as the zero value.
\<close>

fun eval :: "(nat \<Rightarrow> Order) \<Rightarrow> arg \<Rightarrow> Order" where
  "eval st (Lit v) = v"
| "eval st (Var a) = st a"
| "eval st Param = zero_Order"

text \<open>Go evaluates the operands of a call when it executes the call or its \<^verbatim>\<open>defer\<close>.\<close>

fun bind_call :: "(nat \<Rightarrow> Order) \<Rightarrow> call \<Rightarrow> call" where
  "bind_call st (PrintfOrder t a) = PrintfOrder t (Lit (eval st a))"
| "bind_call st (TimeSleepPrep a) = TimeSleepPrep (Lit (eval st a))"
| "bind_call st (ProcessOrder a) = ProcessOrder (Lit (eval st a))"
| "bind_call st c = c"

text \<open>
  Passing the argument of a function literal: the parameter is a copy of the value. A
  literal nested in the body that has a parameter of its own keeps its \<open>Param\<close>.
\<close>

fun subst_arg :: "Order \<Rightarrow> arg \<Rightarrow> arg" where
  "subst_arg v Param = Lit v"
| "subst_arg v a = a"

fun subst_call :: "Order \<Rightarrow> call \<Rightarrow> call" where
  "subst_call v (PrintfOrder t a) = PrintfOrder t (subst_arg v a)"
| "subst_call v (TimeSleepPrep a) = TimeSleepPrep (subst_arg v a)"
| "subst_call v (ProcessOrder a) = ProcessOrder (subst_arg v a)"
| "subst_call v c = c"

fun subst :: "Order \<Rightarrow> stmt \<Rightarrow> stmt" where
  "subst v (Do c) = Do (subst_call v c)"
| "subst v (Defer c) = Defer (subst_call v c)"
| "subst v (Go None body) = Go None (map (subst v) body)"
| "subst v (Go (Some a) body) = Go (Some (subst_arg v a)) body"
| "subst v (Assign a x) = Assign a x"
| "subst v Return = Return"

definition launch :: "(nat \<Rightarrow> Order) \<Rightarrow> arg option \<Rightarrow> stmt list \<Rightarrow> thread" where
  "launch st p body =
     \<lparr>code = (case p of None \<Rightarrow> body | Some a \<Rightarrow> map (subst (eval st a)) body),
      deferred = []\<rparr>"

text \<open>
  Modelled from the spec: \<^verbatim>\<open>sync.WaitGroup\<close> is Go's standard library, not a file of the
  repository. The spec's barrier has a counter \<open>pending\<close>; \<open>register\<close> (\<^verbatim>\<open>Add(1)\<close>) adds
  to it, \<open>signal\<close> (\<^verbatim>\<open>Done()\<close>, which is \<^verbatim>\<open>Add(-1)\<close>) takes one from it, a change that
  would make it negative is a contract violation that aborts (Go panics with
  "sync: negative WaitGroup counter"), and \<open>await\<close> (\<^verbatim>\<open>Wait()\<close>) returns when the
  counter is zero and blocks otherwise.
\<close>

definition wg_add :: "int \<Rightarrow> int \<Rightarrow> int option" where
  "wg_add delta pending = (if pending + delta < 0 then None else Some (pending + delta))"

definition wg_wait :: "int \<Rightarrow> bool" where
  "wg_wait pending = (pending = 0)"

text \<open>
  The next statement of a goroutine: the head of its code; when the code is used up
  (the end of the function, or a \<^verbatim>\<open>return\<close>), the call deferred last.
\<close>

definition next_stmt :: "thread \<Rightarrow> (stmt \<times> thread) option" where
  "next_stmt t =
     (case code t of
        i # r \<Rightarrow> Some (i, t\<lparr>code := r\<rparr>)
      | [] \<Rightarrow> (case deferred t of
                 c # cs \<Rightarrow> Some (Do c, t\<lparr>deferred := cs\<rparr>)
               | [] \<Rightarrow> None))"

definition thread_of :: "state \<Rightarrow> nat \<Rightarrow> thread option" where
  "thread_of s tid =
     (case tid of
        0 \<Rightarrow> Some (coord s)
      | Suc j \<Rightarrow> (if j < length (pool s) then Some (pool s ! j) else None))"

text \<open>Goroutine \<open>tid\<close> has executed \<open>i\<close> and goes on as \<open>t\<close>.\<close>

definition commit :: "nat \<Rightarrow> stmt \<Rightarrow> thread \<Rightarrow> state \<Rightarrow> state" where
  "commit tid i t s =
     (case tid of
        0 \<Rightarrow> s\<lparr>coord := t, trace := (tid, i) # trace s\<rparr>
      | Suc j \<Rightarrow> s\<lparr>pool := (pool s)[j := t], trace := (tid, i) # trace s\<rparr>)"

text \<open>
  One call of goroutine \<open>tid\<close>, whose remaining code and deferred calls are \<open>t\<close>. A panic
  aborts the program: the state is marked and takes no further step. \<open>None\<close> is a
  goroutine that cannot take a step now (it is blocked in \<open>Wait\<close>).
\<close>

fun do_call :: "nat \<Rightarrow> call \<Rightarrow> thread \<Rightarrow> state \<Rightarrow> state option" where
  "do_call tid (WgAdd n) t s =
     (case wg_add n (wg s) of
        None \<Rightarrow> Some (s\<lparr>panicked := True\<rparr>)
      | Some v \<Rightarrow> Some ((commit tid (Do (WgAdd n)) t s)\<lparr>wg := v\<rparr>))"
| "do_call tid WgDone t s =
     (case wg_add (- 1) (wg s) of
        None \<Rightarrow> Some (s\<lparr>panicked := True\<rparr>)
      | Some v \<Rightarrow> Some ((commit tid (Do WgDone) t s)\<lparr>wg := v\<rparr>))"
| "do_call tid WgWait t s =
     (if wg_wait (wg s) then Some (commit tid (Do WgWait) t s) else None)"
| "do_call tid (ProcessOrder a) t s =
     Some (commit tid (Do (ProcessOrder (Lit (eval (store s) a))))
             (t\<lparr>code := map Do (processOrder_02 (Lit (eval (store s) a))) @ code t\<rparr>) s)"
| "do_call tid c t s = Some (commit tid (Do (bind_call (store s) c)) t s)"

fun do_stmt :: "nat \<Rightarrow> stmt \<Rightarrow> thread \<Rightarrow> state \<Rightarrow> state option" where
  "do_stmt tid (Do c) t s = do_call tid c t s"
| "do_stmt tid (Defer c) t s =
     Some (commit tid (Defer (bind_call (store s) c))
             (t\<lparr>deferred := bind_call (store s) c # deferred t\<rparr>) s)"
| "do_stmt tid (Go p body) t s =
     (let s1 = commit tid (Go (map_option (\<lambda>a. Lit (eval (store s) a)) p) body) t s
      in Some (s1\<lparr>pool := pool s1 @ [launch (store s) p body]\<rparr>))"
| "do_stmt tid (Assign a v) t s =
     Some ((commit tid (Assign a v) t s)\<lparr>store := (store s)(a := v)\<rparr>)"
| "do_stmt tid Return t s = Some (commit tid Return (t\<lparr>code := []\<rparr>) s)"

definition step :: "nat \<Rightarrow> state \<Rightarrow> state option" where
  "step tid s =
     (if panicked s then None
      else case thread_of s tid of
             None \<Rightarrow> None
           | Some t0 \<Rightarrow>
               (case next_stmt t0 of
                  None \<Rightarrow> None
                | Some (i, t) \<Rightarrow> do_stmt tid i t s))"

text \<open>Running a schedule: \<open>None\<close> when a goroutine of the schedule cannot take its step.\<close>

fun exec :: "nat list \<Rightarrow> state \<Rightarrow> state option" where
  "exec [] s = Some s"
| "exec (tid # sched) s = (case step tid s of None \<Rightarrow> None | Some s' \<Rightarrow> exec sched s')"

subsection \<open>What a run shows\<close>

text \<open>
  The observations below read the trace of a state. \<open>registered\<close> is the sum of the
  \<open>Add\<close> deltas executed, \<open>signalled\<close> the number of \<open>Done\<close> calls executed, \<open>launched\<close>
  the number of \<^verbatim>\<open>go\<close> statements executed, \<open>signals_of tid\<close> the number of \<open>Done\<close> calls
  goroutine \<open>tid\<close> has executed.
\<close>

fun reg_of :: "nat \<times> stmt \<Rightarrow> int" where
  "reg_of (tid, Do (WgAdd n)) = n"
| "reg_of e = 0"

definition registered :: "(nat \<times> stmt) list \<Rightarrow> int" where
  "registered h = sum_list (map reg_of h)"

fun is_signal :: "nat \<times> stmt \<Rightarrow> bool" where
  "is_signal (tid, Do WgDone) = True"
| "is_signal e = False"

definition signalled :: "(nat \<times> stmt) list \<Rightarrow> nat" where
  "signalled h = length (filter is_signal h)"

fun is_launch :: "nat \<times> stmt \<Rightarrow> bool" where
  "is_launch (tid, Go p body) = True"
| "is_launch e = False"

definition launched :: "(nat \<times> stmt) list \<Rightarrow> nat" where
  "launched h = length (filter is_launch h)"

definition signals_of :: "nat \<Rightarrow> (nat \<times> stmt) list \<Rightarrow> nat" where
  "signals_of tid h = count_list h (tid, Do WgDone)"

text \<open>The coordinator's \<open>Wait\<close> has returned.\<close>

definition await_returned :: "state \<Rightarrow> bool" where
  "await_returned s = ((0, Do WgWait) \<in> set (trace s))"

text \<open>A goroutine has finished: no code left and no deferred call left.\<close>

definition finished :: "thread \<Rightarrow> bool" where
  "finished t = (code t = [] \<and> deferred t = [])"

text \<open>
  The history (latest event first) keeps the order register, then launch: every \<^verbatim>\<open>go\<close>
  was executed by the coordinator at a moment when more registrations than launches had
  already been made, and every \<open>Add\<close> was executed by the coordinator.
\<close>

fun registered_before_launch :: "(nat \<times> stmt) list \<Rightarrow> bool" where
  "registered_before_launch [] = True"
| "registered_before_launch ((tid, Go p body) # h) =
     (tid = 0 \<and> int (launched h) < registered h \<and> registered_before_launch h)"
| "registered_before_launch ((tid, Do (WgAdd n)) # h) =
     (tid = 0 \<and> registered_before_launch h)"
| "registered_before_launch (e # h) = registered_before_launch h"

text \<open>
  The descriptors the goroutines passed to \<open>processOrder\<close>, in the order of the calls,
  each with the goroutine that made the call.
\<close>

fun observation :: "nat \<times> stmt \<Rightarrow> (nat \<times> Order) list" where
  "observation (tid, Do (ProcessOrder (Lit v))) = [(tid, v)]"
| "observation e = []"

definition observed :: "state \<Rightarrow> (nat \<times> Order) list" where
  "observed s = concat (map observation (rev (trace s)))"

text \<open>
  The arguments the \<^verbatim>\<open>go\<close> statements passed to their function literals, in the order of
  the launches: \<open>None\<close> for a literal without a parameter.
\<close>

fun launch_arg :: "nat \<times> stmt \<Rightarrow> arg option list" where
  "launch_arg (tid, Go p body) = [p]"
| "launch_arg e = []"

definition launch_args :: "state \<Rightarrow> arg option list" where
  "launch_args s = concat (map launch_arg (rev (trace s)))"

subsection \<open>What the text of a function shows\<close>

text \<open>
  Code is quiet when it leaves the WaitGroup alone, defers nothing and launches nothing:
  prints, sleeps, assignments, calls of \<open>processOrder\<close>, and \<^verbatim>\<open>return\<close> at any place.
\<close>

fun quiet_call :: "call \<Rightarrow> bool" where
  "quiet_call (WgAdd n) = False"
| "quiet_call WgDone = False"
| "quiet_call WgWait = False"
| "quiet_call c = True"

fun quiet_stmt :: "stmt \<Rightarrow> bool" where
  "quiet_stmt (Do c) = quiet_call c"
| "quiet_stmt (Assign a v) = True"
| "quiet_stmt Return = True"
| "quiet_stmt (Defer c) = False"
| "quiet_stmt (Go p body) = False"

definition quiet :: "stmt list \<Rightarrow> bool" where
  "quiet c = list_all quiet_stmt c"

text \<open>
  The scoped release: the body of a function literal opens with \<^verbatim>\<open>defer wg.Done()\<close> and
  is quiet after it.
\<close>

fun scoped_signal :: "stmt list \<Rightarrow> bool" where
  "scoped_signal (Defer WgDone # rest) = quiet rest"
| "scoped_signal body = False"

subsection \<open>How the coordinator resumes after its launches\<close>

text \<open>
  What the coordinator does about the goroutines it has launched is read from its own
  events: a \<^verbatim>\<open>go\<close> statement, a \<^verbatim>\<open>time.Sleep\<close> of a duration written in the function
  (\<open>FixedSleep\<close>), the \<^verbatim>\<open>time.Sleep(order.PrepTime)\<close> of \<open>processOrder\<close> run by the
  coordinator itself (\<open>WorkSleep\<close>), and a \<open>Wait\<close> that has returned.
\<close>

datatype mark = Launch | FixedSleep int | WorkSleep | Await

fun mark_of :: "stmt \<Rightarrow> mark list" where
  "mark_of (Go p body) = [Launch]"
| "mark_of (Do (TimeSleep d)) = [FixedSleep d]"
| "mark_of (Do (TimeSleepPrep a)) = [WorkSleep]"
| "mark_of (Do WgWait) = [Await]"
| "mark_of i = []"

text \<open>
  The marks of the coordinator in a trace, the earliest first. The events of the launched
  goroutines leave no mark.
\<close>

fun coordinator_marks :: "(nat \<times> stmt) list \<Rightarrow> mark list" where
  "coordinator_marks [] = []"
| "coordinator_marks ((tid, i) # h) =
     coordinator_marks h @ (if tid = 0 then mark_of i else [])"

text \<open>The marks that come after the last launch.\<close>

definition after_last_launch :: "mark list \<Rightarrow> mark list" where
  "after_last_launch ms = rev (takeWhile (\<lambda>m. m \<noteq> Launch) (rev ms))"

fun is_sleep :: "mark \<Rightarrow> bool" where
  "is_sleep (FixedSleep d) = True"
| "is_sleep WorkSleep = True"
| "is_sleep m = False"


definition resumed_by_awaiting :: "state \<Rightarrow> bool" where
  "resumed_by_awaiting s =
     (let ms = coordinator_marks (trace s)
      in Launch \<in> set ms \<and> Await \<in> set (after_last_launch ms) \<and> \<not> list_ex is_sleep ms)"

text \<open>
  The marks that code still to run will leave when the coordinator runs it: a call of
  \<open>processOrder\<close> leaves the marks of the body of \<open>processOrder\<close>. Code is straight when it
  has no \<^verbatim>\<open>return\<close> and no \<^verbatim>\<open>defer\<close>: then it runs from its first statement to its last.
\<close>

fun ahead_of :: "stmt \<Rightarrow> mark list" where
  "ahead_of (Do (ProcessOrder a)) = concat (map (\<lambda>c. mark_of (Do c)) (processOrder_02 a))"
| "ahead_of i = mark_of i"

definition marks :: "stmt list \<Rightarrow> mark list" where
  "marks c = concat (map ahead_of c)"

fun straight_stmt :: "stmt \<Rightarrow> bool" where
  "straight_stmt Return = False"
| "straight_stmt (Defer c) = False"
| "straight_stmt i = True"

definition straight :: "stmt list \<Rightarrow> bool" where
  "straight c = list_all straight_stmt c"

text \<open>
  The invariant of a straight function: the marks left so far, followed by the marks of
  the code still to run, are the marks of the function.
\<close>

definition marked :: "stmt list \<Rightarrow> state \<Rightarrow> bool" where
  "marked prog s =
     (deferred (coord s) = [] \<and> straight (code (coord s)) \<and>
      coordinator_marks (trace s) @ marks (code (coord s)) = marks prog)"

subsection \<open>The discipline of a coordinator, and the invariants it gives\<close>

text \<open>
  \<open>coord_ok k c\<close>: the code \<open>c\<close> of a coordinator that holds \<open>k\<close> registrations not yet
  used by a launch keeps the discipline. Every \<open>Add\<close> has a delta that is not negative,
  every \<^verbatim>\<open>go\<close> uses up a registration made before it and launches a body with the scoped
  release, the coordinator itself neither signals nor defers, and after \<open>Wait\<close> the code
  is quiet. \<^verbatim>\<open>return\<close> ends the code.
\<close>

fun coord_ok :: "int \<Rightarrow> stmt list \<Rightarrow> bool" where
  "coord_ok k [] = True"
| "coord_ok k (Do (WgAdd n) # r) = (0 \<le> n \<and> coord_ok (k + n) r)"
| "coord_ok k (Do WgDone # r) = False"
| "coord_ok k (Do WgWait # r) = quiet r"
| "coord_ok k (Do c # r) = coord_ok k r"
| "coord_ok k (Defer c # r) = False"
| "coord_ok k (Go p body # r) = (1 \<le> k \<and> scoped_signal body \<and> coord_ok (k - 1) r)"
| "coord_ok k (Assign a v # r) = coord_ok k r"
| "coord_ok k (Return # r) = True"

text \<open>The registrations the code will still make.\<close>

fun regs :: "stmt list \<Rightarrow> int" where
  "regs [] = 0"
| "regs (Do (WgAdd n) # r) = n + regs r"
| "regs (Return # r) = 0"
| "regs (i # r) = regs r"

text \<open>A launched goroutine owes its signal until it has finished.\<close>

definition owes :: "thread \<Rightarrow> nat" where
  "owes t = (if finished t then 0 else 1)"

definition owed :: "state \<Rightarrow> nat" where
  "owed s = sum_list (map owes (pool s))"

definition thread_ok :: "thread \<Rightarrow> bool" where
  "thread_ok t =
     ((scoped_signal (code t) \<and> deferred t = []) \<or>
      (quiet (code t) \<and> deferred t = [WgDone]) \<or>
      finished t)"

definition safe :: "state \<Rightarrow> bool" where
  "safe s =
     (\<not> panicked s \<and> deferred (coord s) = [] \<and> int (owed s) \<le> wg s \<and>
      coord_ok (wg s - int (owed s)) (code (coord s)) \<and> list_all thread_ok (pool s))"

definition accounted :: "int \<Rightarrow> state \<Rightarrow> bool" where
  "accounted n s =
     (wg s + int (signalled (trace s)) = registered (trace s) \<and>
      launched (trace s) = length (pool s) \<and>
      signalled (trace s) + owed s = launched (trace s) \<and>
      registered (trace s) + regs (code (coord s)) = n \<and>
      registered_before_launch (trace s) \<and>
      (await_returned s \<longrightarrow> wg s = 0 \<and> quiet (code (coord s))))"

definition per_task :: "state \<Rightarrow> bool" where
  "per_task s =
     ((\<forall>e \<in> set (trace s). fst e \<le> length (pool s)) \<and>
      signals_of 0 (trace s) = 0 \<and>
      (\<forall>j < length (pool s). signals_of (Suc j) (trace s) + owes (pool s ! j) = 1))"

text \<open>What holds of the counter in every program, disciplined or not.\<close>

definition counted :: "state \<Rightarrow> bool" where
  "counted s = (0 \<le> wg s \<and> wg s + int (signalled (trace s)) = registered (trace s))"

text \<open>A bound on the steps quiet code takes: a call of \<open>processOrder\<close> is four steps.\<close>

fun cost :: "stmt \<Rightarrow> nat" where
  "cost (Do (ProcessOrder a)) = 4"
| "cost i = 1"

definition budget :: "stmt list \<Rightarrow> nat" where
  "budget c = sum_list (map cost c)"

subsection \<open>Schedules and states of the examples\<close>

text \<open>
  For \<open>goroutinesWithWaitGroup\<close>: the coordinator runs up to \<open>Wait\<close> (2 statements, 5
  iterations of 3), the five goroutines run one after the other (6 steps each: the
  \<^verbatim>\<open>defer\<close>, the call, its three statements, the deferred \<open>Done\<close>), the coordinator ends.
\<close>

definition tasks_in_turn :: "nat list" where
  "tasks_in_turn =
     replicate 17 0 @ replicate 6 1 @ replicate 6 2 @ replicate 6 3 @ replicate 6 4 @
     replicate 6 5 @ replicate 3 0"

text \<open>
  For \<open>goroutineRuntimeInfo\<close>: the same, the coordinator printing the goroutine count
  before the goroutines take their first step.
\<close>

definition loop_first :: "nat list" where
  "loop_first =
     replicate 18 0 @ replicate 6 1 @ replicate 6 2 @ replicate 6 3 @ replicate 6 4 @
     replicate 6 5 @ replicate 2 0"

text \<open>A run of \<open>goroutinesWithWaitGroup\<close> stopped half way, three goroutines under way.\<close>

definition half_way :: "nat list" where
  "half_way = [0, 0, 0, 0, 0, 1, 1, 0, 0, 0, 2, 1, 2, 0, 0, 0, 1, 3, 1, 1]"


text \<open>A function that registers one task whose body signals twice.\<close>

definition double_done :: "stmt list" where
  "double_done = [Do (WgAdd 1), Go None [Do WgDone, Do WgDone], Do WgWait]"

text \<open>
  Goroutine \<open>Suc j\<close> returns at this point: a \<^verbatim>\<open>return\<close> in front of what is left of its
  body.
\<close>

definition return_now :: "nat \<Rightarrow> state \<Rightarrow> state" where
  "return_now j s = s\<lparr>pool := (pool s)[j := (pool s ! j)\<lparr>code := Return # code (pool s ! j)\<rparr>]\<rparr>"

subsection \<open>The time a run takes\<close>

text \<open>
  A logical clock read from the trace. Every goroutine has a clock of its own. Only
  \<^verbatim>\<open>time.Sleep\<close> takes time: it pauses the goroutine that calls it, and no other, for
  its duration (at once when the duration is zero or negative); every other statement
  takes none. A goroutine starts at the time of the \<^verbatim>\<open>go\<close> statement that launches it, and
  the goroutines are numbered in the order of the launches. \<open>Done\<close> leaves the time at
  which it is called, and \<open>Wait\<close> returns at the later of the time it is called and the
  latest \<open>Done\<close>. This is the time the program would take on a machine that runs every
  goroutine as soon as it can and computes in no time: the scheduler's delays and the
  cost of the prints, which a real run adds, are outside of it.
\<close>

record timeline =
  clock :: "nat \<Rightarrow> int"
  spawned :: nat
  last_done :: int

definition nap :: "int \<Rightarrow> int" where
  "nap d = max 0 d"

fun advance :: "nat \<Rightarrow> stmt \<Rightarrow> timeline \<Rightarrow> timeline" where
  "advance tid (Go p body) tm =
     tm\<lparr>clock := (clock tm)(Suc (spawned tm) := clock tm tid), spawned := Suc (spawned tm)\<rparr>"
| "advance tid (Do (TimeSleep d)) tm = tm\<lparr>clock := (clock tm)(tid := clock tm tid + nap d)\<rparr>"
| "advance tid (Do (TimeSleepPrep a)) tm =
     tm\<lparr>clock := (clock tm)(tid := clock tm tid + nap (PrepTime (eval (\<lambda>x. zero_Order) a)))\<rparr>"
| "advance tid (Do WgDone) tm = tm\<lparr>last_done := max (last_done tm) (clock tm tid)\<rparr>"
| "advance tid (Do WgWait) tm =
     tm\<lparr>clock := (clock tm)(tid := max (clock tm tid) (last_done tm))\<rparr>"
| "advance tid i tm = tm"

fun timeline_of :: "(nat \<times> stmt) list \<Rightarrow> timeline" where
  "timeline_of [] = \<lparr>clock = (\<lambda>tid. 0), spawned = 0, last_done = 0\<rparr>"
| "timeline_of ((tid, i) # h) = advance tid i (timeline_of h)"

text \<open>The time on the clock of a goroutine, and the time the function has taken.\<close>

definition clock_of :: "state \<Rightarrow> nat \<Rightarrow> int" where
  "clock_of s tid = clock (timeline_of (trace s)) tid"

definition elapsed :: "state \<Rightarrow> int" where
  "elapsed s = clock_of s 0"

text \<open>The longest delay of a batch.\<close>

fun longest :: "Order list \<Rightarrow> int" where
  "longest [] = 0"
| "longest (v # vs) = max (nap (PrepTime v)) (longest vs)"

text \<open>
  The tasks of \<open>goroutinesWithWaitGroup\<close> that have printed their first message, and a
  schedule that stops when the five of them have: the coordinator up to \<open>Wait\<close>, then
  three steps of each goroutine.
\<close>

fun is_start :: "nat \<times> stmt \<Rightarrow> bool" where
  "is_start (tid, Do (PrintfOrder t a)) = (t = ''Order %d: Started processing'')"
| "is_start e = False"

definition started :: "(nat \<times> stmt) list \<Rightarrow> nat" where
  "started h = length (filter is_start h)"

definition all_started :: "nat list" where
  "all_started = replicate 17 0 @ [1, 1, 1, 2, 2, 2, 3, 3, 3, 4, 4, 4, 5, 5, 5]"

text \<open>
  The invariant of \<open>goroutinesWithWaitGroup\<close> that gives its time. A launched goroutine
  is at one of seven stages of the literal of lines 90 to 93 applied to its order; its
  clock shows the order's delay once it has slept and zero before.
\<close>

datatype stage = Fresh | Deferred | Called | Printed | Slept | Ready | Over

fun task_at :: "Order \<Rightarrow> stage \<Rightarrow> thread" where
  "task_at v Fresh = \<lparr>code = [Defer WgDone, Do (ProcessOrder (Lit v))], deferred = []\<rparr>"
| "task_at v Deferred = \<lparr>code = [Do (ProcessOrder (Lit v))], deferred = [WgDone]\<rparr>"
| "task_at v Called = \<lparr>code = map Do (processOrder_02 (Lit v)), deferred = [WgDone]\<rparr>"
| "task_at v Printed = \<lparr>code = map Do (drop 1 (processOrder_02 (Lit v))), deferred = [WgDone]\<rparr>"
| "task_at v Slept = \<lparr>code = map Do (drop 2 (processOrder_02 (Lit v))), deferred = [WgDone]\<rparr>"
| "task_at v Ready = \<lparr>code = [], deferred = [WgDone]\<rparr>"
| "task_at v Over = \<lparr>code = [], deferred = []\<rparr>"

fun has_slept :: "stage \<Rightarrow> bool" where
  "has_slept Slept = True"
| "has_slept Ready = True"
| "has_slept Over = True"
| "has_slept g = False"

text \<open>
  The coordinator is at one of these places: before the banner, before \<^verbatim>\<open>time.Now()\<close>, at
  the top of iteration \<open>k\<close> (or at \<open>Wait\<close>, when \<open>k\<close> is the length of the batch), before
  the \<open>Add\<close> or the \<^verbatim>\<open>go\<close> of iteration \<open>k\<close>, or \<open>m\<close> prints after \<open>Wait\<close>.
\<close>

datatype place = Banner | Clock | Top nat | Adding nat | Launching nat | Awaited nat

definition loop_rest :: "loopvar \<Rightarrow> Order list \<Rightarrow> nat \<Rightarrow> stmt list" where
  "loop_rest lv orders k =
     for_range lv k (drop k orders)
       (\<lambda>order. [Do (WgAdd 1), Go (Some order) [Defer WgDone, Do (ProcessOrder Param)]])
     @ [Do WgWait,
        Do (Printf ''Sequential Processing time: 12s''),
        Do (Printf ''Concurrent processing time: %v'')]"

fun coord_at :: "loopvar \<Rightarrow> Order list \<Rightarrow> place \<Rightarrow> stmt list" where
  "coord_at lv orders Banner = goroutinesWithWaitGroup_of lv orders"
| "coord_at lv orders Clock = Do TimeNow # loop_rest lv orders 0"
| "coord_at lv orders (Top k) = loop_rest lv orders k"
| "coord_at lv orders (Adding k) =
     Do (WgAdd 1) # Go (Some (Var (slot lv k))) [Defer WgDone, Do (ProcessOrder Param)] #
     loop_rest lv orders (Suc k)"
| "coord_at lv orders (Launching k) =
     Go (Some (Var (slot lv k))) [Defer WgDone, Do (ProcessOrder Param)] #
     loop_rest lv orders (Suc k)"
| "coord_at lv orders (Awaited m) =
     drop m [Do (Printf ''Sequential Processing time: 12s''),
             Do (Printf ''Concurrent processing time: %v'')]"

fun placed :: "loopvar \<Rightarrow> Order list \<Rightarrow> place \<Rightarrow> state \<Rightarrow> bool" where
  "placed lv orders Banner s = (pool s = [] \<and> \<not> await_returned s)"
| "placed lv orders Clock s = (pool s = [] \<and> \<not> await_returned s)"
| "placed lv orders (Top k) s =
     (k \<le> length orders \<and> length (pool s) = k \<and> \<not> await_returned s)"
| "placed lv orders (Adding k) s =
     (k < length orders \<and> length (pool s) = k \<and> store s (slot lv k) = orders ! k \<and>
      \<not> await_returned s)"
| "placed lv orders (Launching k) s =
     (k < length orders \<and> length (pool s) = k \<and> store s (slot lv k) = orders ! k \<and>
      \<not> await_returned s)"
| "placed lv orders (Awaited m) s = (length (pool s) = length orders \<and> await_returned s)"

definition tasks_timed :: "Order list \<Rightarrow> timeline \<Rightarrow> thread list \<Rightarrow> bool" where
  "tasks_timed orders tm ts =
     (\<forall>j < length ts. \<exists>g.
        ts ! j = task_at (orders ! j) g \<and>
        clock tm (Suc j) = (if has_slept g then nap (PrepTime (orders ! j)) else 0) \<and>
        (g = Over \<longrightarrow> nap (PrepTime (orders ! j)) \<le> last_done tm))"

definition timed_at :: "loopvar \<Rightarrow> Order list \<Rightarrow> place \<Rightarrow> state \<Rightarrow> bool" where
  "timed_at lv orders pl s =
     (deferred (coord s) = [] \<and> code (coord s) = coord_at lv orders pl \<and>
      placed lv orders pl s \<and>
      spawned (timeline_of (trace s)) = length (pool s) \<and>
      0 \<le> last_done (timeline_of (trace s)) \<and>
      last_done (timeline_of (trace s)) \<le> longest orders \<and>
      tasks_timed orders (timeline_of (trace s)) (pool s) \<and>
      clock (timeline_of (trace s)) 0 = (if await_returned s then longest orders else 0))"

definition timed :: "loopvar \<Rightarrow> Order list \<Rightarrow> state \<Rightarrow> bool" where
  "timed lv orders s = (\<exists>pl. timed_at lv orders pl s)"

section \<open>Proofs\<close>

subsection \<open>Quiet code and the scoped release\<close>

lemma quiet_call_bind [simp]: "quiet_call (bind_call st c) = quiet_call c"
  by (cases c) simp_all

lemma quiet_call_subst [simp]: "quiet_call (subst_call v c) = quiet_call c"
  by (cases c) simp_all

lemma quiet_stmt_subst [simp]: "quiet_stmt (subst v i) = quiet_stmt i"
  by (induction v i rule: subst.induct) simp_all

lemma quiet_map_subst [simp]: "quiet (map (subst v) c) = quiet c"
  by (simp add: quiet_def list_all_iff)

lemma scoped_signal_iff: "scoped_signal body = (\<exists>r. body = Defer WgDone # r \<and> quiet r)"
  by (induction body rule: scoped_signal.induct) simp_all

lemma subst_call_WgDone [simp]: "(subst_call v c = WgDone) = (c = WgDone)"
  by (cases c) simp_all

lemma subst_Defer_WgDone [simp]: "(subst v i = Defer WgDone) = (i = Defer WgDone)"
  by (induction v i rule: subst.induct) simp_all

lemma scoped_signal_subst [simp]: "scoped_signal (map (subst v) body) = scoped_signal body"
  by (auto simp: scoped_signal_iff map_eq_Cons_conv)

lemma quiet_coord_ok: "quiet r \<Longrightarrow> coord_ok k r"
  by (induction k r rule: coord_ok.induct) (simp_all add: quiet_def)

lemma quiet_regs: "quiet r \<Longrightarrow> regs r = 0"
  by (induction r rule: regs.induct) (simp_all add: quiet_def)

subsection \<open>Steps of a disciplined program\<close>

text \<open>
  A property kept by every step holds after every schedule. The two shape lemmas list
  the steps a state that satisfies \<open>safe\<close> can take: four kinds of coordinator steps and
  three kinds of steps of a launched goroutine.
\<close>

lemma exec_invariant:
  assumes "\<And>s tid s'. I s \<Longrightarrow> step tid s = Some s' \<Longrightarrow> I s'"
  shows "I s \<Longrightarrow> exec sched s = Some s' \<Longrightarrow> I s'"
  by (induction sched arbitrary: s) (auto split: option.splits intro: assms)

lemma sum_list_owes_update:
  "j < length ts \<Longrightarrow>
     sum_list (map owes (ts[j := t])) + owes (ts ! j) = sum_list (map owes ts) + owes t"
  by (induction ts arbitrary: j) (auto split: nat.splits)

lemma owes_le_sum: "j < length ts \<Longrightarrow> owes (ts ! j) \<le> sum_list (map owes ts)"
  by (rule member_le_sum_list) simp_all

lemma step_coord:
  assumes "step 0 s = Some s'"
  obtains i t where "\<not> panicked s" "next_stmt (coord s) = Some (i, t)" "do_stmt 0 i t s = Some s'"
  using assms by (auto simp: step_def thread_of_def split: if_splits option.splits)

lemma step_pool:
  assumes "step (Suc j) s = Some s'"
  obtains i t where "\<not> panicked s" "j < length (pool s)"
    "next_stmt (pool s ! j) = Some (i, t)" "do_stmt (Suc j) i t s = Some s'"
  using assms by (auto simp: step_def thread_of_def split: if_splits option.splits)

lemma coord_step_shape:
  assumes "safe s" and "step 0 s = Some s'"
  obtains
    (Register) n r where "code (coord s) = Do (WgAdd n) # r" "0 \<le> n"
      "coord s' = \<lparr>code = r, deferred = []\<rparr>" "pool s' = pool s" "wg s' = wg s + n"
      "trace s' = (0, Do (WgAdd n)) # trace s" "\<not> panicked s'"
  | (Launch) p p' body r t where "code (coord s) = Go p body # r" "scoped_signal body"
      "coord s' = \<lparr>code = r, deferred = []\<rparr>" "pool s' = pool s @ [t]"
      "scoped_signal (code t)" "deferred t = []" "wg s' = wg s"
      "trace s' = (0, Go p' body) # trace s" "\<not> panicked s'"
  | (Await) r where "code (coord s) = Do WgWait # r" "quiet r" "wg s = 0"
      "coord s' = \<lparr>code = r, deferred = []\<rparr>" "pool s' = pool s" "wg s' = wg s"
      "trace s' = (0, Do WgWait) # trace s" "\<not> panicked s'"
  | (Coord) i i' r r' where "code (coord s) = i # r" "quiet_stmt i" "quiet_stmt i'"
      "coord s' = \<lparr>code = r', deferred = []\<rparr>" "regs r' = regs (i # r)"
      "\<And>k. coord_ok k (i # r) \<Longrightarrow> coord_ok k r'" "quiet (i # r) \<Longrightarrow> quiet r'"
      "pool s' = pool s" "wg s' = wg s" "trace s' = (0, i') # trace s" "\<not> panicked s'"
proof -
  from assms(2) obtain i t where np: "\<not> panicked s" and nx: "next_stmt (coord s) = Some (i, t)"
    and ds: "do_stmt 0 i t s = Some s'" by (rule step_coord)
  from assms(1) have d: "deferred (coord s) = []" and ow: "int (owed s) \<le> wg s"
    and ok: "coord_ok (wg s - int (owed s)) (code (coord s))" by (simp_all add: safe_def)
  from nx d obtain r where c: "code (coord s) = i # r" and t: "t = \<lparr>code = r, deferred = []\<rparr>"
    by (auto simp: next_stmt_def split: list.splits)
  show thesis
  proof (cases i)
    case (Do cl)
    show ?thesis
    proof (cases cl)
      case (WgAdd n)
      with Do c ok ow ds t np show ?thesis
        by (intro Register[of n r]) (auto simp: wg_add_def commit_def split: if_splits)
    next
      case WgDone
      with Do c ok show ?thesis by simp
    next
      case WgWait
      with Do c ok ow ds t np show ?thesis
        by (intro Await[of r]) (auto simp: wg_wait_def commit_def split: if_splits)
    next
      case (ProcessOrder a)
      with Do c ds t np show ?thesis
        by (intro Coord[of i r "Do (ProcessOrder (Lit (eval (store s) a)))"
              "map Do (processOrder_02 (Lit (eval (store s) a))) @ r"])
           (auto simp: commit_def processOrder_02_def quiet_def)
    next
      case (Printf x)
      with Do c ds t np show ?thesis
        by (intro Coord[of i r i r]) (auto simp: commit_def quiet_def)
    next
      case (PrintfOrder x a)
      with Do c ds t np show ?thesis
        by (intro Coord[of i r "Do (bind_call (store s) cl)" r]) (auto simp: commit_def quiet_def)
    next
      case TimeNow
      with Do c ds t np show ?thesis
        by (intro Coord[of i r i r]) (auto simp: commit_def quiet_def)
    next
      case (TimeSleep x)
      with Do c ds t np show ?thesis
        by (intro Coord[of i r i r]) (auto simp: commit_def quiet_def)
    next
      case (TimeSleepPrep a)
      with Do c ds t np show ?thesis
        by (intro Coord[of i r "Do (bind_call (store s) cl)" r]) (auto simp: commit_def quiet_def)
    qed
  next
    case (Defer cl)
    with c ok show ?thesis by simp
  next
    case (Go p body)
    with c ok ds t np show ?thesis
      by (intro Launch[of p body r "launch (store s) p body" "map_option (\<lambda>a. Lit (eval (store s) a)) p"])
         (auto simp: commit_def launch_def Let_def split: option.splits)
  next
    case (Assign a v)
    with c ds t np show ?thesis
      by (intro Coord[of i r i r]) (auto simp: commit_def quiet_def)
  next
    case Return
    with c ds t np show ?thesis
      by (intro Coord[of i r i "[]"]) (auto simp: commit_def quiet_def)
  qed
qed

lemma quiet_do_stmt:
  assumes "quiet (i # r)"
  obtains i' r' st where
    "do_stmt tid i \<lparr>code = r, deferred = d\<rparr> s =
       Some ((commit tid i' \<lparr>code = r', deferred = d\<rparr> s)\<lparr>store := st\<rparr>)"
    "quiet_stmt i'" "quiet r'" "budget r' < budget (i # r)"
proof (cases i)
  case (Do cl)
  show ?thesis
  proof (cases cl)
    case (ProcessOrder a)
    with Do assms show ?thesis
      by (intro that[where i' = "Do (ProcessOrder (Lit (eval (store s) a)))"
            and r' = "map Do (processOrder_02 (Lit (eval (store s) a))) @ r"
            and st = "store s"])
         (auto simp: quiet_def processOrder_02_def commit_def budget_def split: nat.splits)
  qed (use Do assms in \<open>auto simp: quiet_def commit_def budget_def
         intro!: that[where i' = "Do (bind_call (store s) cl)" and r' = r and st = "store s"]
         split: nat.splits\<close>)
next
  case (Assign a v)
  with assms show ?thesis
    by (intro that[where i' = i and r' = r and st = "(store s)(a := v)"])
       (auto simp: quiet_def commit_def budget_def split: nat.splits)
next
  case Return
  with assms show ?thesis
    by (intro that[where i' = i and r' = "[]" and st = "store s"])
       (auto simp: quiet_def commit_def budget_def split: nat.splits)
qed (use assms in \<open>simp_all add: quiet_def\<close>)

lemma pool_step_shape:
  assumes "safe s" and "step (Suc j) s = Some s'"
  obtains
    (TaskDefer) r where "j < length (pool s)" "code (pool s ! j) = Defer WgDone # r"
      "deferred (pool s ! j) = []" "quiet r"
      "pool s' = (pool s)[j := \<lparr>code = r, deferred = [WgDone]\<rparr>]"
      "coord s' = coord s" "wg s' = wg s"
      "trace s' = (Suc j, Defer WgDone) # trace s" "\<not> panicked s'"
  | (Task) i' t' where "j < length (pool s)" "code (pool s ! j) \<noteq> []"
      "deferred (pool s ! j) = [WgDone]" "quiet (code t')" "deferred t' = [WgDone]"
      "quiet_stmt i'" "pool s' = (pool s)[j := t']"
      "coord s' = coord s" "wg s' = wg s"
      "trace s' = (Suc j, i') # trace s" "\<not> panicked s'"
  | (Signal) "j < length (pool s)" "code (pool s ! j) = []" "deferred (pool s ! j) = [WgDone]"
      "pool s' = (pool s)[j := \<lparr>code = [], deferred = []\<rparr>]"
      "coord s' = coord s" "1 \<le> wg s" "wg s' = wg s - 1"
      "trace s' = (Suc j, Do WgDone) # trace s" "\<not> panicked s'"
proof -
  from assms(2) obtain i t where np: "\<not> panicked s" and j: "j < length (pool s)"
    and nx: "next_stmt (pool s ! j) = Some (i, t)"
    and ds: "do_stmt (Suc j) i t s = Some s'" by (rule step_pool)
  from assms(1) j have tok: "thread_ok (pool s ! j)" and ow: "int (owed s) \<le> wg s"
    by (simp_all add: safe_def list_all_length)
  from nx have nf: "\<not> finished (pool s ! j)"
    by (auto simp: next_stmt_def finished_def split: list.splits)
  with tok consider
      (a) "scoped_signal (code (pool s ! j))" "deferred (pool s ! j) = []"
    | (b) "quiet (code (pool s ! j))" "deferred (pool s ! j) = [WgDone]"
    by (auto simp: thread_ok_def)
  then show thesis
  proof cases
    case a
    then obtain r where c: "code (pool s ! j) = Defer WgDone # r" and q: "quiet r"
      by (auto simp: scoped_signal_iff)
    with a nx have "i = Defer WgDone" "t = \<lparr>code = r, deferred = []\<rparr>"
      by (auto simp: next_stmt_def)
    with ds j c a q np show ?thesis
      by (intro TaskDefer[of r]) (auto simp: commit_def)
  next
    case b
    show ?thesis
    proof (cases "code (pool s ! j)")
      case Nil
      with b nx have it: "i = Do WgDone" "t = \<lparr>code = [], deferred = []\<rparr>"
        by (auto simp: next_stmt_def)
      from nf have "owes (pool s ! j) = 1" by (simp add: owes_def)
      with owes_le_sum[OF j] ow have "1 \<le> wg s" by (simp add: owed_def)
      with it ds j Nil b np show ?thesis
        by (intro Signal) (auto simp: commit_def wg_add_def)
    next
      case (Cons i0 r)
      with b nx have it: "i = i0" "t = \<lparr>code = r, deferred = [WgDone]\<rparr>"
        by (auto simp: next_stmt_def)
      from b Cons have "quiet (i # r)" by (simp add: it)
      then obtain i' r' st where
        "do_stmt (Suc j) i \<lparr>code = r, deferred = [WgDone]\<rparr> s =
           Some ((commit (Suc j) i' \<lparr>code = r', deferred = [WgDone]\<rparr> s)\<lparr>store := st\<rparr>)"
        and qs: "quiet_stmt i'" "quiet r'"
        by (rule quiet_do_stmt)
      with ds[unfolded it(2)] have
        "s' = (commit (Suc j) i' \<lparr>code = r', deferred = [WgDone]\<rparr> s)\<lparr>store := st\<rparr>"
        by simp
      note this qs
      with j Cons b np show ?thesis
        by (intro Task[where t' = "\<lparr>code = r', deferred = [WgDone]\<rparr>" and i' = i'])
           (auto simp: commit_def)
    qed
  qed
qed

subsection \<open>The invariants are kept\<close>

lemma list_all_update: "list_all P xs \<Longrightarrow> P t \<Longrightarrow> list_all P (xs[j := t])"
  using set_update_subset_insert[of xs j t] by (auto simp: list_all_iff)

lemma owes_scoped: "scoped_signal (code t) \<Longrightarrow> owes t = 1"
  by (auto simp: owes_def finished_def scoped_signal_iff)

lemma owed_update:
  "j < length (pool s) \<Longrightarrow> pool s' = (pool s)[j := t] \<Longrightarrow>
     owed s' + owes (pool s ! j) = owed s + owes t"
  by (simp add: owed_def sum_list_owes_update)

lemma safe_step:
  assumes "safe s" and "step tid s = Some s'"
  shows "safe s'"
proof (cases tid)
  case 0
  with assms(2) have st: "step 0 s = Some s'" by simp
  from assms(1) have ow: "int (owed s) \<le> wg s"
    and ok: "coord_ok (wg s - int (owed s)) (code (coord s))"
    and pl: "list_all thread_ok (pool s)" by (simp_all add: safe_def)
  from assms(1) st show ?thesis
  proof (cases rule: coord_step_shape)
    case (Register n r)
    with ow ok pl show ?thesis by (simp add: safe_def owed_def algebra_simps)
  next
    case (Launch p p' body r t)
    then have "owed s' = owed s + 1" by (simp add: owed_def owes_scoped)
    with Launch ow ok pl show ?thesis by (simp add: safe_def thread_ok_def algebra_simps)
  next
    case (Await r)
    with ow pl show ?thesis by (simp add: safe_def owed_def quiet_coord_ok)
  next
    case (Coord i i' r r')
    with ow ok pl show ?thesis by (simp add: safe_def owed_def)
  qed
next
  case (Suc j)
  with assms(2) have st: "step (Suc j) s = Some s'" by simp
  from assms(1) have ow: "int (owed s) \<le> wg s"
    and ok: "coord_ok (wg s - int (owed s)) (code (coord s))"
    and d: "deferred (coord s) = []"
    and pl: "list_all thread_ok (pool s)" by (simp_all add: safe_def)
  from assms(1) st show ?thesis
  proof (cases rule: pool_step_shape)
    case (TaskDefer r)
    from owed_update[OF TaskDefer(1,5)] TaskDefer(2) have "owed s' = owed s"
      by (simp add: owes_def finished_def)
    with TaskDefer ow ok d pl show ?thesis
      by (simp add: safe_def list_all_update thread_ok_def)
  next
    case (Task i' t')
    from owed_update[OF Task(1,7)] Task(2,5) have "owed s' = owed s"
      by (simp add: owes_def finished_def)
    with Task ow ok d pl show ?thesis
      by (simp add: safe_def list_all_update thread_ok_def)
  next
    case Signal
    from owed_update[OF Signal(1,4)] Signal(3) have "owed s' + 1 = owed s"
      by (simp add: owes_def finished_def)
    then have "int (owed s') = int (owed s) - 1" by linarith
    with Signal ow ok d pl show ?thesis
      by (simp add: safe_def list_all_update thread_ok_def finished_def)
  qed
qed

lemma safe_init: "coord_ok 0 prog \<Longrightarrow> safe (init prog)"
  by (simp add: safe_def init_def owed_def)

lemma quiet_event [simp]:
  assumes "quiet_stmt i"
  shows "reg_of (tid, i) = 0" "\<not> is_signal (tid, i)" "\<not> is_launch (tid, i)"
    "i \<noteq> Do WgWait" "i \<noteq> Do WgDone"
    "registered_before_launch ((tid, i) # h) = registered_before_launch h"
  using assms by (cases i; cases "case i of Do c \<Rightarrow> c | _ \<Rightarrow> WgDone"; simp)+

lemma accounted_step:
  assumes "safe s" and "accounted n s" and "step tid s = Some s'"
  shows "accounted n s'"
proof (cases tid)
  case 0
  with assms(3) have st: "step 0 s = Some s'" by simp
  from assms(1) have ok: "coord_ok (wg s - int (owed s)) (code (coord s))"
    by (simp add: safe_def)
  from assms(1) st show ?thesis
  proof (cases rule: coord_step_shape)
    case (Register n r)
    with assms(2) show ?thesis
      by (auto simp: accounted_def registered_def signalled_def launched_def owed_def
            await_returned_def quiet_def)
  next
    case (Launch p p' body r t)
    then have "owed s' = owed s + 1" by (simp add: owed_def owes_scoped)
    moreover from Launch ok have "1 \<le> wg s - int (owed s)" by simp
    ultimately show ?thesis using Launch assms(2)
      by (auto simp: accounted_def registered_def signalled_def launched_def
            await_returned_def quiet_def)
  next
    case (Await r)
    with assms(2) show ?thesis
      by (auto simp: accounted_def registered_def signalled_def launched_def owed_def
            await_returned_def quiet_regs)
  next
    case (Coord i i' r r')
    with assms(2) show ?thesis
      by (auto simp: accounted_def registered_def signalled_def launched_def owed_def
            await_returned_def)
  qed
next
  case (Suc j)
  with assms(3) have st: "step (Suc j) s = Some s'" by simp
  from assms(1) have ow: "int (owed s) \<le> wg s" by (simp add: safe_def)
  from assms(1) st show ?thesis
  proof (cases rule: pool_step_shape)
    case (TaskDefer r)
    from owed_update[OF TaskDefer(1,5)] TaskDefer(2) have "owed s' = owed s"
      by (simp add: owes_def finished_def)
    with TaskDefer assms(2) Suc show ?thesis
      by (auto simp: accounted_def registered_def signalled_def launched_def
            await_returned_def)
  next
    case (Task i' t')
    from owed_update[OF Task(1,7)] Task(2,5) have "owed s' = owed s"
      by (simp add: owes_def finished_def)
    with Task assms(2) Suc show ?thesis
      by (auto simp: accounted_def registered_def signalled_def launched_def
            await_returned_def)
  next
    case Signal
    from owed_update[OF Signal(1,4)] Signal(3) have "owed s' + 1 = owed s"
      by (simp add: owes_def finished_def)
    with Signal assms(2) Suc show ?thesis
      by (auto simp: accounted_def registered_def signalled_def launched_def
            await_returned_def)
  qed
qed

lemma accounted_exec:
  "safe s \<Longrightarrow> accounted n s \<Longrightarrow> exec sched s = Some s' \<Longrightarrow> safe s' \<and> accounted n s'"
  by (rule exec_invariant[where I = "\<lambda>s. safe s \<and> accounted n s"])
     (auto intro: safe_step accounted_step)

lemma accounted_init: "accounted (regs prog) (init prog)"
  by (simp add: accounted_def init_def owed_def registered_def signalled_def launched_def
        await_returned_def)

lemma signals_of_Cons:
  "signals_of tid ((tid', i) # h) =
     (if tid' = tid \<and> i = Do WgDone then Suc (signals_of tid h) else signals_of tid h)"
  by (auto simp: signals_of_def)

lemma signals_of_fresh: "\<forall>e \<in> set h. fst e \<le> n \<Longrightarrow> signals_of (Suc n) h = 0"
  by (auto simp: signals_of_def count_list_0_iff)

lemma per_task_step:
  assumes "safe s" and "per_task s" and "step tid s = Some s'"
  shows "per_task s'"
proof (cases tid)
  case 0
  with assms(3) have st: "step 0 s = Some s'" by simp
  from assms(1) st show ?thesis
  proof (cases rule: coord_step_shape)
    case (Register n r)
    with assms(2) show ?thesis by (auto simp: per_task_def signals_of_Cons)
  next
    case (Launch p p' body r t)
    with assms(2) show ?thesis
      by (auto simp: per_task_def signals_of_Cons nth_append less_Suc_eq
            signals_of_fresh owes_scoped le_SucI)
  next
    case (Await r)
    with assms(2) show ?thesis by (auto simp: per_task_def signals_of_Cons)
  next
    case (Coord i i' r r')
    with assms(2) show ?thesis by (auto simp: per_task_def signals_of_Cons)
  qed
next
  case (Suc j)
  with assms(3) have st: "step (Suc j) s = Some s'" by simp
  from assms(1) st show ?thesis
  proof (cases rule: pool_step_shape)
    case (TaskDefer r)
    with assms(2) Suc show ?thesis
      by (auto simp: per_task_def signals_of_Cons nth_list_update owes_def finished_def)
  next
    case (Task i' t')
    with assms(2) Suc show ?thesis
      by (auto simp: per_task_def signals_of_Cons nth_list_update owes_def finished_def)
  next
    case Signal
    with assms(2) Suc show ?thesis
      by (auto simp: per_task_def signals_of_Cons nth_list_update owes_def finished_def)
  qed
qed

lemma per_task_exec:
  "safe s \<Longrightarrow> per_task s \<Longrightarrow> exec sched s = Some s' \<Longrightarrow> per_task s'"
proof -
  assume a: "safe s" "per_task s" "exec sched s = Some s'"
  have "safe s' \<and> per_task s'"
    by (rule exec_invariant[where I = "\<lambda>s. safe s \<and> per_task s", OF _ _ a(3)])
       (use a in \<open>auto intro: safe_step per_task_step\<close>)
  then show ?thesis ..
qed

lemma per_task_init: "per_task (init prog)"
  by (simp add: per_task_def init_def signals_of_def)

subsection \<open>The functions that use a WaitGroup keep the discipline\<close>

lemma coord_ok_range_param:
  "0 \<le> k \<Longrightarrow> coord_ok k rest \<Longrightarrow>
     coord_ok k (for_range lv i orders
        (\<lambda>order. [Do (WgAdd 1), Go (Some order) [Defer WgDone, Do (ProcessOrder Param)]]) @ rest)"
  by (induction orders arbitrary: i) (simp_all add: quiet_def)

lemma coord_ok_range_capture:
  "0 \<le> k \<Longrightarrow> coord_ok k rest \<Longrightarrow>
     coord_ok k (for_range lv i orders
        (\<lambda>order. [Do (WgAdd 1), Go None [Defer WgDone, Do (ProcessOrder order)]]) @ rest)"
  by (induction orders arbitrary: i) (simp_all add: quiet_def)

lemma regs_range_param:
  "regs (for_range lv i orders
        (\<lambda>order. [Do (WgAdd 1), Go (Some order) [Defer WgDone, Do (ProcessOrder Param)]]) @ rest)
     = int (length orders) + regs rest"
  by (induction orders arbitrary: i) simp_all

lemma coord_ok_goroutinesWithWaitGroup: "coord_ok 0 (goroutinesWithWaitGroup_of lv orders)"
  by (simp add: goroutinesWithWaitGroup_of_def coord_ok_range_param quiet_def)

lemma regs_goroutinesWithWaitGroup:
  "regs (goroutinesWithWaitGroup_of lv orders) = int (length orders)"
  by (simp add: goroutinesWithWaitGroup_of_def regs_range_param)

lemma coord_ok_goroutineRuntimeInfo: "coord_ok 0 (goroutineRuntimeInfo_of lv orders)"
  by (simp add: goroutineRuntimeInfo_of_def coord_ok_range_capture quiet_def)

lemma coord_ok_anonymousGoroutines: "coord_ok 0 anonymousGoroutines"
  by (simp add: anonymousGoroutines_def quiet_def)

lemma reachable_invariants:
  assumes "coord_ok 0 prog" and "exec sched (init prog) = Some s"
  shows "safe s" and "accounted (regs prog) s" and "per_task s"
proof -
  have "safe s \<and> accounted (regs prog) s"
    by (rule accounted_exec[OF safe_init[OF assms(1)] accounted_init assms(2)])
  then show "safe s" and "accounted (regs prog) s" by simp_all
  show "per_task s"
    by (rule per_task_exec[OF safe_init[OF assms(1)] per_task_init assms(2)])
qed

lemma sum_list_owes_0: "sum_list (map owes ts) = 0 \<Longrightarrow> j < length ts \<Longrightarrow> owes (ts ! j) = 0"
  by (simp add: sum_list_eq_0_iff)

subsection \<open>The sequential log\<close>

lemma range_orders_01_log:
  "range_orders_01 orders w =
     w @ concat (map (\<lambda>order. [Printf_Started (ID order), Sleep (PrepTime order),
                                 Printf_Ready (ID order) (PrepTime order)]) orders)"
  by (induction orders arbitrary: w) (simp_all add: processOrder_01_def)

lemma invocations_runs:
  "invocations (concat (map (\<lambda>order. [Printf_Started (ID order), Sleep (PrepTime order),
                                 Printf_Ready (ID order) (PrepTime order)]) orders) @ w) =
     (case invocations w of None \<Rightarrow> None | Some os \<Rightarrow> Some (orders @ os))"
  by (induction orders) (simp_all split: option.splits)

subsection \<open>The counter in any program\<close>

lemma do_stmt_counted:
  assumes "do_stmt tid i t s = Some s'" and "counted s"
  shows "counted s'"
proof (cases i)
  case (Do c)
  with assms show ?thesis
    by (cases c)
       (auto simp: counted_def commit_def wg_add_def wg_wait_def registered_def signalled_def
             split: nat.splits if_splits)
next
  case (Defer c)
  with assms show ?thesis
    by (auto simp: counted_def commit_def registered_def signalled_def split: nat.splits)
next
  case (Go p body)
  with assms show ?thesis
    by (auto simp: counted_def commit_def registered_def signalled_def Let_def split: nat.splits)
next
  case (Assign a v)
  with assms show ?thesis
    by (auto simp: counted_def commit_def registered_def signalled_def split: nat.splits)
next
  case Return
  with assms show ?thesis
    by (auto simp: counted_def commit_def registered_def signalled_def split: nat.splits)
qed

lemma step_counted: "counted s \<Longrightarrow> step tid s = Some s' \<Longrightarrow> counted s'"
  by (auto simp: step_def split: if_splits option.splits intro: do_stmt_counted)

lemma counted_init: "counted (init prog)"
  by (simp add: counted_def init_def registered_def signalled_def)

lemma counted_exec: "exec sched (init prog) = Some s \<Longrightarrow> counted s"
  by (rule exec_invariant[where I = counted, OF step_counted counted_init])

subsection \<open>A goroutine with the scoped release runs to its end\<close>

lemma exec_append:
  "exec (xs @ ys) s = (case exec xs s of None \<Rightarrow> None | Some s' \<Rightarrow> exec ys s')"
  by (induction xs arbitrary: s) (simp_all split: option.splits)

lemma run_quiet:
  assumes "quiet c" "\<not> panicked s" "j < length (pool s)"
    "pool s ! j = \<lparr>code = c, deferred = d\<rparr>"
  shows "\<exists>n s'. exec (replicate n (Suc j)) s = Some s' \<and> \<not> panicked s' \<and>
           pool s' = (pool s)[j := \<lparr>code = [], deferred = d\<rparr>] \<and> wg s' = wg s \<and>
           signals_of (Suc j) (trace s') = signals_of (Suc j) (trace s)"
  using assms
proof (induction "budget c" arbitrary: c s rule: less_induct)
  case less
  show ?case
  proof (cases c)
    case Nil
    with less.prems have "pool s = (pool s)[j := \<lparr>code = [], deferred = d\<rparr>]"
      by (metis list_update_id)
    then have "exec (replicate 0 (Suc j)) s = Some s \<and> \<not> panicked s \<and>
           pool s = (pool s)[j := \<lparr>code = [], deferred = d\<rparr>] \<and> wg s = wg s \<and>
           signals_of (Suc j) (trace s) = signals_of (Suc j) (trace s)"
      using less.prems by simp
    then show ?thesis by blast
  next
    case (Cons i r)
    with less.prems(1) have q: "quiet (i # r)" by simp
    from q obtain i' r' st where
      ds: "do_stmt (Suc j) i \<lparr>code = r, deferred = d\<rparr> s =
             Some ((commit (Suc j) i' \<lparr>code = r', deferred = d\<rparr> s)\<lparr>store := st\<rparr>)"
      and qi: "quiet_stmt i'" and qr: "quiet r'" and b: "budget r' < budget (i # r)"
      by (rule quiet_do_stmt)
    define s1 where "s1 = (commit (Suc j) i' \<lparr>code = r', deferred = d\<rparr> s)\<lparr>store := st\<rparr>"
    have st1: "step (Suc j) s = Some s1"
      using less.prems Cons ds by (simp add: step_def thread_of_def next_stmt_def s1_def)
    have p1: "pool s1 = (pool s)[j := \<lparr>code = r', deferred = d\<rparr>]"
      and w1: "wg s1 = wg s" and np1: "\<not> panicked s1"
      and t1: "trace s1 = (Suc j, i') # trace s"
      using less.prems by (simp_all add: s1_def commit_def)
    from p1 less.prems(3) have j1: "j < length (pool s1)"
      and n1: "pool s1 ! j = \<lparr>code = r', deferred = d\<rparr>" by simp_all
    from less.hyps[OF b[folded Cons] qr np1 j1 n1] obtain n s' where
      e: "exec (replicate n (Suc j)) s1 = Some s'" and np: "\<not> panicked s'"
      and p: "pool s' = (pool s1)[j := \<lparr>code = [], deferred = d\<rparr>]" and w: "wg s' = wg s1"
      and sg: "signals_of (Suc j) (trace s') = signals_of (Suc j) (trace s1)" by blast
    from qi t1 have "signals_of (Suc j) (trace s1) = signals_of (Suc j) (trace s)"
      by (auto simp: signals_of_Cons)
    with e np p w sg st1 p1 w1 have
      "exec (replicate (Suc n) (Suc j)) s = Some s' \<and> \<not> panicked s' \<and>
           pool s' = (pool s)[j := \<lparr>code = [], deferred = d\<rparr>] \<and> wg s' = wg s \<and>
           signals_of (Suc j) (trace s') = signals_of (Suc j) (trace s)"
      by simp
    then show ?thesis by blast
  qed
qed

lemma defer_done_runs:
  assumes "quiet rest" "\<not> panicked s" "0 < wg s" "j < length (pool s)"
    "pool s ! j = \<lparr>code = Defer WgDone # rest, deferred = []\<rparr>"
  shows "\<exists>n s'. exec (replicate n (Suc j)) s = Some s' \<and> \<not> panicked s' \<and>
           finished (pool s' ! j) \<and> wg s' = wg s - 1 \<and>
           signals_of (Suc j) (trace s') = signals_of (Suc j) (trace s) + 1 \<and>
           hd (trace s') = (Suc j, Do WgDone)"
proof -
  define s1 where "s1 = commit (Suc j) (Defer WgDone) \<lparr>code = rest, deferred = [WgDone]\<rparr> s"
  have st1: "step (Suc j) s = Some s1"
    using assms by (simp add: step_def thread_of_def next_stmt_def s1_def)
  have p1: "pool s1 = (pool s)[j := \<lparr>code = rest, deferred = [WgDone]\<rparr>]"
    and w1: "wg s1 = wg s" and np1: "\<not> panicked s1"
    and t1: "trace s1 = (Suc j, Defer WgDone) # trace s"
    using assms by (simp_all add: s1_def commit_def)
  from p1 assms(4) have j1: "j < length (pool s1)"
    and n1: "pool s1 ! j = \<lparr>code = rest, deferred = [WgDone]\<rparr>" by simp_all
  from run_quiet[OF assms(1) np1 j1 n1] obtain n s2 where
    e: "exec (replicate n (Suc j)) s1 = Some s2" and np2: "\<not> panicked s2"
    and p2: "pool s2 = (pool s1)[j := \<lparr>code = [], deferred = [WgDone]\<rparr>]"
    and w2: "wg s2 = wg s1"
    and sg2: "signals_of (Suc j) (trace s2) = signals_of (Suc j) (trace s1)" by blast
  define s3 where
    "s3 = (commit (Suc j) (Do WgDone) \<lparr>code = [], deferred = []\<rparr> s2)\<lparr>wg := wg s2 - 1\<rparr>"
  from p2 j1 have j2: "j < length (pool s2)"
    and n2: "pool s2 ! j = \<lparr>code = [], deferred = [WgDone]\<rparr>" by simp_all
  have st3: "step (Suc j) s2 = Some s3"
    using np2 j2 n2 w2 w1 assms(3)
    by (simp add: step_def thread_of_def next_stmt_def s3_def wg_add_def)
  have "exec (replicate (Suc n) (Suc j) @ [Suc j]) s = Some s3"
    using st1 e st3 by (simp add: exec_append)
  moreover have "\<not> panicked s3" "finished (pool s3 ! j)" "wg s3 = wg s - 1"
    "hd (trace s3) = (Suc j, Do WgDone)"
    using np2 j2 w2 w1 by (simp_all add: s3_def commit_def finished_def)
  moreover have "signals_of (Suc j) (trace s3) = signals_of (Suc j) (trace s) + 1"
    using sg2 t1 by (simp add: s3_def commit_def signals_of_Cons)
  ultimately have "exec (replicate (Suc (Suc n)) (Suc j)) s = Some s3 \<and> \<not> panicked s3 \<and>
           finished (pool s3 ! j) \<and> wg s3 = wg s - 1 \<and>
           signals_of (Suc j) (trace s3) = signals_of (Suc j) (trace s) + 1 \<and>
           hd (trace s3) = (Suc j, Do WgDone)"
    by (simp add: replicate_append_same)
  then show ?thesis by blast
qed

lemma ran: "(case x of None \<Rightarrow> False | Some s \<Rightarrow> P s) \<Longrightarrow> \<exists>s. x = Some s \<and> P s"
  by (cases x) simp_all

subsection \<open>The deferred signal at any point of a goroutine\<close>

lemma deferred_done_runs:
  assumes "quiet c" "\<not> panicked s" "0 < wg s" "j < length (pool s)"
    "pool s ! j = \<lparr>code = c, deferred = [WgDone]\<rparr>"
  shows "\<exists>n s'. exec (replicate n (Suc j)) s = Some s' \<and> \<not> panicked s' \<and>
           finished (pool s' ! j) \<and> wg s' = wg s - 1 \<and>
           signals_of (Suc j) (trace s') = signals_of (Suc j) (trace s) + 1 \<and>
           hd (trace s') = (Suc j, Do WgDone)"
proof -
  from run_quiet[OF assms(1,2,4,5)] obtain n s2 where
    e: "exec (replicate n (Suc j)) s = Some s2" and np2: "\<not> panicked s2"
    and p2: "pool s2 = (pool s)[j := \<lparr>code = [], deferred = [WgDone]\<rparr>]"
    and w2: "wg s2 = wg s"
    and sg2: "signals_of (Suc j) (trace s2) = signals_of (Suc j) (trace s)" by blast
  define s3 where
    "s3 = (commit (Suc j) (Do WgDone) \<lparr>code = [], deferred = []\<rparr> s2)\<lparr>wg := wg s2 - 1\<rparr>"
  from p2 assms(4) have j2: "j < length (pool s2)"
    and n2: "pool s2 ! j = \<lparr>code = [], deferred = [WgDone]\<rparr>" by simp_all
  have st3: "step (Suc j) s2 = Some s3"
    using np2 j2 n2 w2 assms(3)
    by (simp add: step_def thread_of_def next_stmt_def s3_def wg_add_def)
  have "exec (replicate n (Suc j) @ [Suc j]) s = Some s3"
    using e st3 by (simp add: exec_append)
  moreover have "\<not> panicked s3" "finished (pool s3 ! j)" "wg s3 = wg s - 1"
    "hd (trace s3) = (Suc j, Do WgDone)"
    using np2 j2 w2 by (simp_all add: s3_def commit_def finished_def)
  moreover have "signals_of (Suc j) (trace s3) = signals_of (Suc j) (trace s) + 1"
    using sg2 by (simp add: s3_def commit_def signals_of_Cons)
  ultimately have "exec (replicate (Suc n) (Suc j)) s = Some s3 \<and> \<not> panicked s3 \<and>
           finished (pool s3 ! j) \<and> wg s3 = wg s - 1 \<and>
           signals_of (Suc j) (trace s3) = signals_of (Suc j) (trace s) + 1 \<and>
           hd (trace s3) = (Suc j, Do WgDone)"
    by (simp add: replicate_append_same)
  then show ?thesis by blast
qed

lemma coord_ok_waitgroup_functions:
  assumes "prog = goroutinesWithWaitGroup_of lv orders \<or> prog = anonymousGoroutines \<or>
           prog = goroutineRuntimeInfo_of lv orders"
  shows "coord_ok 0 prog"
  using assms
proof (elim disjE)
  assume "prog = goroutinesWithWaitGroup_of lv orders"
  then show ?thesis by (simp only: coord_ok_goroutinesWithWaitGroup)
next
  assume "prog = anonymousGoroutines"
  then show ?thesis by (simp only: coord_ok_anonymousGoroutines)
next
  assume "prog = goroutineRuntimeInfo_of lv orders"
  then show ?thesis by (simp only: coord_ok_goroutineRuntimeInfo)
qed

subsection \<open>The marks of the coordinator\<close>

lemma marks_append [simp]: "marks (xs @ ys) = marks xs @ marks ys"
  by (simp add: marks_def)

lemma marks_Cons [simp]: "marks (i # c) = ahead_of i @ marks c"
  by (simp add: marks_def)

lemma marks_Nil [simp]: "marks [] = []"
  by (simp add: marks_def)

lemma mark_of_bind [simp]: "mark_of (Do (bind_call st c)) = mark_of (Do c)"
  by (cases c) simp_all

lemma do_stmt_pool_frame:
  assumes "do_stmt (Suc j) i t s = Some s'"
  shows "coord s' = coord s \<and> coordinator_marks (trace s') = coordinator_marks (trace s)"
proof (cases i)
  case (Do c)
  with assms show ?thesis
    by (cases c) (auto simp: commit_def wg_add_def wg_wait_def split: if_splits)
qed (use assms in \<open>auto simp: commit_def Let_def\<close>)

lemma do_stmt_coord_marks:
  assumes "do_stmt 0 i \<lparr>code = r, deferred = []\<rparr> s = Some s'" and "straight (i # r)"
  shows "(coord s' = coord s \<and> trace s' = trace s) \<or>
         (\<exists>r'. coord s' = \<lparr>code = r', deferred = []\<rparr> \<and> straight r' \<and>
           coordinator_marks (trace s') @ marks r' =
             coordinator_marks (trace s) @ marks (i # r))"
proof (cases i)
  case (Do c)
  with assms show ?thesis
    by (cases c)
       (auto simp: commit_def wg_add_def wg_wait_def straight_def processOrder_02_def
             split: if_splits)
qed (use assms in \<open>auto simp: commit_def Let_def straight_def\<close>)

lemma marked_step:
  assumes "marked prog s" and "step tid s = Some s'"
  shows "marked prog s'"
proof (cases tid)
  case 0
  from assms(1) have d: "deferred (coord s) = []" and st: "straight (code (coord s))"
    and m: "coordinator_marks (trace s) @ marks (code (coord s)) = marks prog"
    by (simp_all add: marked_def)
  from assms(2) 0 obtain i t where nx: "next_stmt (coord s) = Some (i, t)"
    and ds: "do_stmt 0 i t s = Some s'"
    by (auto simp: step_def thread_of_def split: if_splits option.splits)
  from nx d obtain r where c: "code (coord s) = i # r" and t: "t = \<lparr>code = r, deferred = []\<rparr>"
    by (auto simp: next_stmt_def split: list.splits)
  from do_stmt_coord_marks[OF ds[unfolded t] st[unfolded c]] d st m c
  show ?thesis by (auto simp: marked_def)
next
  case (Suc j)
  with assms(2) obtain i t where "do_stmt (Suc j) i t s = Some s'"
    by (auto simp: step_def split: if_splits option.splits)
  from do_stmt_pool_frame[OF this] assms(1) show ?thesis by (simp add: marked_def)
qed

lemma marked_exec:
  assumes "straight prog" and "exec sched (init prog) = Some s"
  shows "marked prog s"
proof -
  have "marked prog (init prog)" using assms(1) by (simp add: marked_def init_def)
  from exec_invariant[where I = "marked prog", OF marked_step this assms(2)] show ?thesis .
qed

lemma marks_reached:
  assumes "straight prog" and "exec sched (init prog) = Some s"
  shows "\<exists>ms. coordinator_marks (trace s) @ ms = marks prog"
    and "finished (coord s) \<Longrightarrow> coordinator_marks (trace s) = marks prog"
  using marked_exec[OF assms] by (auto simp: marked_def finished_def)

lemma straight_for_range:
  "(\<And>a. list_all straight_stmt (body a)) \<Longrightarrow>
     list_all straight_stmt (for_range lv i orders body)"
  by (induction orders arbitrary: i) simp_all

lemma marks_for_range:
  "(\<And>a. marks (body a) = m) \<Longrightarrow>
     marks (for_range lv i orders body) = concat (replicate (length orders) m)"
  by (induction orders arbitrary: i) simp_all

lemma straight_append [simp]: "straight (xs @ ys) = (straight xs \<and> straight ys)"
  by (simp add: straight_def)

lemma concat_replicate_single [simp]: "concat (replicate n [x]) = replicate n x"
  by (induction n) simp_all

lemma straight_functions:
  "straight simpleGoroutine" "straight (multipleGoroutines_of lv orders)"
  "straight (sequentialProcessing_of lv orders)" "straight (goroutinesWithWaitGroup_of lv orders)"
  "straight anonymousGoroutines" "straight (goroutineRuntimeInfo_of lv orders)"
  by (simp_all add: simpleGoroutine_def multipleGoroutines_of_def sequentialProcessing_of_def
        goroutinesWithWaitGroup_of_def anonymousGoroutines_def goroutineRuntimeInfo_of_def
        straight_def straight_for_range)

lemma marks_functions:
  "marks simpleGoroutine = [Launch, FixedSleep (3 * Second)]"
  "marks (multipleGoroutines_of lv orders) =
     replicate (length orders) Launch @ [FixedSleep (5 * Second)]"
  "marks (sequentialProcessing_of lv orders) = replicate (length orders) WorkSleep"
  "marks (goroutinesWithWaitGroup_of lv orders) = replicate (length orders) Launch @ [Await]"
  "marks anonymousGoroutines = [Launch, Launch, Await]"
  "marks (goroutineRuntimeInfo_of lv orders) = replicate (length orders) Launch @ [Await]"
  by (simp_all add: simpleGoroutine_def multipleGoroutines_of_def sequentialProcessing_of_def
        goroutinesWithWaitGroup_of_def anonymousGoroutines_def goroutineRuntimeInfo_of_def
        processOrder_02_def
        marks_for_range[where m = "[Launch]"] marks_for_range[where m = "[WorkSleep]"])

lemma after_last_launch_launches [simp]:
  "m \<noteq> Launch \<Longrightarrow> after_last_launch (replicate n Launch @ [m]) = [m]"
  by (simp add: after_last_launch_def takeWhile_replicate)



lemma no_sleep_replicate_Launch [simp]: "\<not> list_ex is_sleep (replicate n Launch)"
  by (auto simp: list_ex_iff)

lemma waitgroup_functions_resume_by_awaiting:
  assumes "prog = goroutinesWithWaitGroup_of lv (v # vs) \<or> prog = anonymousGoroutines \<or>
           prog = goroutineRuntimeInfo_of lv (v # vs)"
    and "exec sched (init prog) = Some s" and "finished (coord s)"
  shows "resumed_by_awaiting s"
proof -
  from assms(1) have "straight prog" by (auto simp: straight_functions)
  moreover have "\<exists>n. marks prog = replicate (Suc n) Launch @ [Await]"
  proof -
    from assms(1) consider "prog = goroutinesWithWaitGroup_of lv (v # vs)"
      | "prog = anonymousGoroutines" | "prog = goroutineRuntimeInfo_of lv (v # vs)" by blast
    then show ?thesis
    proof cases
      case 1
      then have "marks prog = replicate (Suc (length vs)) Launch @ [Await]"
        by (simp add: marks_functions)
      then show ?thesis by blast
    next
      case 2
      then have "marks prog = replicate (Suc (Suc 0)) Launch @ [Await]"
        by (simp add: marks_functions)
      then show ?thesis by blast
    next
      case 3
      then have "marks prog = replicate (Suc (length vs)) Launch @ [Await]"
        by (simp add: marks_functions)
      then show ?thesis by blast
    qed
  qed
  ultimately obtain n where "coordinator_marks (trace s) = replicate (Suc n) Launch @ [Await]"
    using marks_reached(2)[OF _ assms(2,3)] by auto
  then show ?thesis by (simp add: resumed_by_awaiting_def del: replicate_Suc)
qed

subsection \<open>The clock of goroutinesWithWaitGroup\<close>

lemma nap_le_longest: "j < length orders \<Longrightarrow> nap (PrepTime (orders ! j)) \<le> longest orders"
  by (induction orders arbitrary: j) (auto simp: less_Suc_eq_0_disj le_max_iff_disj)

lemma longest_nonneg: "0 \<le> longest orders"
  by (induction orders) (simp_all add: nap_def)

lemma longest_least:
  "0 \<le> m \<Longrightarrow> (\<And>j. j < length orders \<Longrightarrow> nap (PrepTime (orders ! j)) \<le> m) \<Longrightarrow>
     longest orders \<le> m"
proof (induction orders)
  case Nil
  then show ?case by simp
next
  case (Cons v vs)
  from Cons.prems(2)[of 0] have "nap (PrepTime v) \<le> m" by simp
  moreover have "longest vs \<le> m"
    using Cons.prems(2)[of "Suc j" for j] by (intro Cons.IH Cons.prems(1)) simp
  ultimately show ?case by simp
qed

lemma loop_rest_step:
  "k < length orders \<Longrightarrow>
     loop_rest lv orders k =
       Assign (slot lv k) (orders ! k) # coord_at lv orders (Adding k)"
  by (simp add: loop_rest_def Cons_nth_drop_Suc[symmetric])

lemma loop_rest_end:
  "loop_rest lv orders (length orders) = Do WgWait # coord_at lv orders (Awaited 0)"
  by (simp add: loop_rest_def)

lemma finished_task_at [simp]: "finished (task_at v g) = (g = Over)"
  by (cases g) (simp_all add: finished_def processOrder_02_def)

lemma tasks_timed_same:
  assumes "tasks_timed orders tm ts"
    and "\<And>j. j < length ts \<Longrightarrow> clock tm' (Suc j) = clock tm (Suc j)"
    and "last_done tm \<le> last_done tm'"
  shows "tasks_timed orders tm' ts"
  unfolding tasks_timed_def
proof (intro allI impI)
  fix j assume j: "j < length ts"
  with assms(1) obtain g where "ts ! j = task_at (orders ! j) g"
    "clock tm (Suc j) = (if has_slept g then nap (PrepTime (orders ! j)) else 0)"
    "g = Over \<longrightarrow> nap (PrepTime (orders ! j)) \<le> last_done tm"
    by (auto simp: tasks_timed_def)
  with assms(2)[OF j] assms(3)
  have "ts ! j = task_at (orders ! j) g \<and>
        clock tm' (Suc j) = (if has_slept g then nap (PrepTime (orders ! j)) else 0) \<and>
        (g = Over \<longrightarrow> nap (PrepTime (orders ! j)) \<le> last_done tm')"
    by auto
  then show "\<exists>g. ts ! j = task_at (orders ! j) g \<and>
        clock tm' (Suc j) = (if has_slept g then nap (PrepTime (orders ! j)) else 0) \<and>
        (g = Over \<longrightarrow> nap (PrepTime (orders ! j)) \<le> last_done tm')" ..
qed

lemma tasks_timed_launch:
  assumes "tasks_timed orders tm ts"
    and "\<And>j. j < length ts \<Longrightarrow> clock tm' (Suc j) = clock tm (Suc j)"
    and "last_done tm \<le> last_done tm'"
    and "clock tm' (Suc (length ts)) = 0"
  shows "tasks_timed orders tm' (ts @ [task_at (orders ! length ts) Fresh])"
  unfolding tasks_timed_def
proof (intro allI impI)
  fix j assume j: "j < length (ts @ [task_at (orders ! length ts) Fresh])"
  show "\<exists>g. (ts @ [task_at (orders ! length ts) Fresh]) ! j = task_at (orders ! j) g \<and>
        clock tm' (Suc j) = (if has_slept g then nap (PrepTime (orders ! j)) else 0) \<and>
        (g = Over \<longrightarrow> nap (PrepTime (orders ! j)) \<le> last_done tm')"
  proof (cases "j < length ts")
    case True
    with tasks_timed_same[OF assms(1,2,3)] show ?thesis
      by (simp add: tasks_timed_def nth_append)
  next
    case False
    with j have "j = length ts" by simp
    with assms(4) have
      "(ts @ [task_at (orders ! length ts) Fresh]) ! j = task_at (orders ! j) Fresh \<and>
        clock tm' (Suc j) = (if has_slept Fresh then nap (PrepTime (orders ! j)) else 0) \<and>
        (Fresh = Over \<longrightarrow> nap (PrepTime (orders ! j)) \<le> last_done tm')"
      by simp
    then show ?thesis ..
  qed
qed

lemma tasks_timed_move:
  assumes "tasks_timed orders tm ts" and "j < length ts"
    and "\<And>j'. j' < length ts \<Longrightarrow> j' \<noteq> j \<Longrightarrow> clock tm' (Suc j') = clock tm (Suc j')"
    and "last_done tm \<le> last_done tm'"
    and "clock tm' (Suc j) = (if has_slept g' then nap (PrepTime (orders ! j)) else 0)"
    and "g' = Over \<Longrightarrow> nap (PrepTime (orders ! j)) \<le> last_done tm'"
  shows "tasks_timed orders tm' (ts[j := task_at (orders ! j) g'])"
  unfolding tasks_timed_def
proof (intro allI impI)
  fix i assume i: "i < length (ts[j := task_at (orders ! j) g'])"
  show "\<exists>g. ts[j := task_at (orders ! j) g'] ! i = task_at (orders ! i) g \<and>
        clock tm' (Suc i) = (if has_slept g then nap (PrepTime (orders ! i)) else 0) \<and>
        (g = Over \<longrightarrow> nap (PrepTime (orders ! i)) \<le> last_done tm')"
  proof (cases "i = j")
    case True
    with assms(2,5,6) have
      "ts[j := task_at (orders ! j) g'] ! i = task_at (orders ! i) g' \<and>
        clock tm' (Suc i) = (if has_slept g' then nap (PrepTime (orders ! i)) else 0) \<and>
        (g' = Over \<longrightarrow> nap (PrepTime (orders ! i)) \<le> last_done tm')"
      by simp
    then show ?thesis ..
  next
    case False
    from i have il: "i < length ts" by simp
    with assms(1) obtain g where "ts ! i = task_at (orders ! i) g"
      "clock tm (Suc i) = (if has_slept g then nap (PrepTime (orders ! i)) else 0)"
      "g = Over \<longrightarrow> nap (PrepTime (orders ! i)) \<le> last_done tm"
      by (auto simp: tasks_timed_def)
    with assms(3)[OF il False] assms(4) False have
      "ts[j := task_at (orders ! j) g'] ! i = task_at (orders ! i) g \<and>
        clock tm' (Suc i) = (if has_slept g then nap (PrepTime (orders ! i)) else 0) \<and>
        (g = Over \<longrightarrow> nap (PrepTime (orders ! i)) \<le> last_done tm')"
      by auto
    then show ?thesis ..
  qed
qed

lemma placed_length: "placed lv orders pl s \<Longrightarrow> length (pool s) \<le> length orders"
  by (cases pl) simp_all

lemma step_coord_code:
  assumes "step 0 s = Some s'" and "deferred (coord s) = []" and "code (coord s) = i # r"
  shows "do_stmt 0 i \<lparr>code = r, deferred = []\<rparr> s = Some s'"
proof -
  from assms(1) obtain i' t where nx: "next_stmt (coord s) = Some (i', t)"
    and ds: "do_stmt 0 i' t s = Some s'" by (rule step_coord)
  from nx assms(2,3) have "i' = i" "t = \<lparr>code = r, deferred = []\<rparr>"
    by (auto simp: next_stmt_def)
  with ds show ?thesis by simp
qed

lemma timed_same_tasks:
  assumes "timed_at lv orders pl s"
    and "deferred (coord s') = []" and "code (coord s') = coord_at lv orders pl'"
    and "placed lv orders pl' s'"
    and "pool s' = pool s" and "trace s' = (0, i) # trace s"
    and "advance 0 i (timeline_of (trace s)) = timeline_of (trace s)"
    and "\<not> await_returned s'"
  shows "timed lv orders s'"
proof -
  from assms(1,8) assms(6) have nw: "\<not> await_returned s"
    by (auto simp: await_returned_def)
  from assms have "timed_at lv orders pl' s'"
    using nw by (simp add: timed_at_def)
  then show ?thesis by (auto simp: timed_def)
qed

lemma timed_panicked: "timed_at lv orders pl s \<Longrightarrow> timed lv orders (s\<lparr>panicked := True\<rparr>)"
  by (cases pl) (auto simp: timed_def timed_at_def await_returned_def intro!: exI[of _ pl])

lemma timed_coord_step:
  assumes sf: "safe s" and ta: "timed_at lv orders pl s" and st: "step 0 s = Some s'"
  shows "timed lv orders s'"
proof -
  from ta have d: "deferred (coord s) = []" and c: "code (coord s) = coord_at lv orders pl"
    and pl: "placed lv orders pl s" by (simp_all add: timed_at_def)
  show ?thesis
  proof (cases pl)
    case Banner
    from c Banner have c': "code (coord s) =
        Do (Printf ''=== 3. GOROUTINES WITH WAITGROUP (Proper Sync) ==='') #
        coord_at lv orders Clock"
      by (simp add: goroutinesWithWaitGroup_of_def loop_rest_def)
    from step_coord_code[OF st d c'] pl Banner show ?thesis
      by (intro timed_same_tasks[OF ta, where pl' = Clock])
         (auto simp: commit_def await_returned_def)
  next
    case Clock
    from c Clock have c': "code (coord s) = Do TimeNow # coord_at lv orders (Top 0)"
      by simp
    from step_coord_code[OF st d c'] pl Clock show ?thesis
      by (intro timed_same_tasks[OF ta, where pl' = "Top 0"])
         (auto simp: commit_def await_returned_def)
  next
    case (Top k)
    show ?thesis
    proof (cases "k < length orders")
      case True
      from c Top loop_rest_step[OF True] have c': "code (coord s) =
          Assign (slot lv k) (orders ! k) # coord_at lv orders (Adding k)"
        by simp
      from step_coord_code[OF st d c'] pl Top True show ?thesis
        by (intro timed_same_tasks[OF ta, where pl' = "Adding k"])
           (auto simp: commit_def await_returned_def)
    next
      case False
      with pl Top have k: "k = length orders" and len: "length (pool s) = length orders"
        and nw: "\<not> await_returned s" by simp_all
      from c Top k loop_rest_end have c': "code (coord s) =
          Do WgWait # coord_at lv orders (Awaited 0)" by simp
      from step_coord_code[OF st d c'] have w: "wg s = 0"
        and s': "s' = commit 0 (Do WgWait) \<lparr>code = coord_at lv orders (Awaited 0), deferred = []\<rparr> s"
        by (auto simp: wg_wait_def split: if_splits)
      from sf w have o: "owed s = 0" by (simp add: safe_def)
      define tm where "tm = timeline_of (trace s)"
      from ta have tt: "tasks_timed orders tm (pool s)" and lo: "0 \<le> last_done tm"
        and hi: "last_done tm \<le> longest orders" and sp: "spawned tm = length (pool s)"
        and c0: "clock tm 0 = 0"
        using nw by (simp_all add: timed_at_def tm_def)
      have "nap (PrepTime (orders ! j)) \<le> last_done tm" if "j < length orders" for j
      proof -
        from that len have j: "j < length (pool s)" by simp
        with o have "owes (pool s ! j) = 0" by (simp add: owed_def sum_list_owes_0)
        then have f: "finished (pool s ! j)" by (simp add: owes_def split: if_splits)
        from tt j obtain g where "pool s ! j = task_at (orders ! j) g"
          "g = Over \<longrightarrow> nap (PrepTime (orders ! j)) \<le> last_done tm"
          by (auto simp: tasks_timed_def)
        with f show ?thesis by simp
      qed
      from longest_least[OF lo this] hi have eq: "last_done tm = longest orders" by simp
      have "timed_at lv orders (Awaited 0) s'"
        using d len tt lo hi sp c0 eq
        by (auto simp: timed_at_def s' commit_def await_returned_def tm_def[symmetric]
              intro: tasks_timed_same)
      then show ?thesis by (auto simp: timed_def)
    qed
  next
    case (Adding k)
    from c Adding have c': "code (coord s) = Do (WgAdd 1) # coord_at lv orders (Launching k)"
      by simp
    from step_coord_code[OF st d c'] consider "s' = s\<lparr>panicked := True\<rparr>"
      | v where "s' = (commit 0 (Do (WgAdd 1))
           \<lparr>code = coord_at lv orders (Launching k), deferred = []\<rparr> s)\<lparr>wg := v\<rparr>"
      by (auto split: option.splits)
    then show ?thesis
    proof cases
      case 1
      with timed_panicked[OF ta] show ?thesis by simp
    next
      case 2
      with pl Adding show ?thesis
        by (intro timed_same_tasks[OF ta, where pl' = "Launching k"])
           (auto simp: commit_def await_returned_def)
    qed
  next
    case (Launching k)
    from pl Launching have k: "k < length orders" and len: "length (pool s) = k"
      and sv: "store s (slot lv k) = orders ! k" and nw: "\<not> await_returned s" by simp_all
    from c Launching have c': "code (coord s) =
        Go (Some (Var (slot lv k))) [Defer WgDone, Do (ProcessOrder Param)] #
        coord_at lv orders (Top (Suc k))" by simp
    define tm where "tm = timeline_of (trace s)"
    from ta have tt: "tasks_timed orders tm (pool s)" and lo: "0 \<le> last_done tm"
      and hi: "last_done tm \<le> longest orders" and sp: "spawned tm = length (pool s)"
      and c0: "clock tm 0 = 0"
      using nw by (simp_all add: timed_at_def tm_def)
    from step_coord_code[OF st d c'] sv
    have s': "coord s' = \<lparr>code = coord_at lv orders (Top (Suc k)), deferred = []\<rparr>"
      "pool s' = pool s @ [task_at (orders ! k) Fresh]"
      "trace s' = (0, Go (Some (Lit (orders ! k))) [Defer WgDone, Do (ProcessOrder Param)]) # trace s"
      by (auto simp: commit_def launch_def Let_def)
    have "tasks_timed orders (advance 0 (Go (Some (Lit (orders ! k))) [Defer WgDone, Do (ProcessOrder Param)]) tm)
            (pool s @ [task_at (orders ! length (pool s)) Fresh])"
      by (rule tasks_timed_launch[OF tt]) (use sp c0 in simp_all)
    then have "timed_at lv orders (Top (Suc k)) s'"
      using k len nw lo hi sp c0 s'
      by (simp add: timed_at_def await_returned_def tm_def[symmetric])
    then show ?thesis by (auto simp: timed_def)
  next
    case (Awaited m)
    from pl Awaited have len: "length (pool s) = length orders" and aw: "await_returned s"
      by simp_all
    from st c d Awaited have "m < 2"
      by (cases "m < 2") (auto simp: step_def thread_of_def next_stmt_def split: if_splits)
    then consider "m = 0" | "m = 1" by linarith
    then obtain i where c': "code (coord s) = i # coord_at lv orders (Awaited (Suc m))"
      and adv: "\<And>tm. advance 0 i tm = tm"
      using c Awaited by cases auto
    from c' c Awaited \<open>m < 2\<close> obtain x where ix: "i = Do (Printf x)"
      by (cases m) (auto simp: less_Suc_eq)
    from step_coord_code[OF st d c'] ix
    have s': "s' = commit 0 i \<lparr>code = coord_at lv orders (Awaited (Suc m)), deferred = []\<rparr> s"
      by simp
    from ta aw Awaited have "timed_at lv orders (Awaited (Suc m)) s'"
      by (simp add: timed_at_def s' commit_def await_returned_def adv)
    then show ?thesis by (auto simp: timed_def)
  qed
qed

lemma placed_task_step:
  assumes "placed lv orders pl s" and "length (pool s') = length (pool s)"
    and "store s' = store s" and "trace s' = (Suc j, i) # trace s"
  shows "placed lv orders pl s'"
  using assms by (cases pl) (simp_all add: await_returned_def)

lemma timed_task_move:
  assumes ta: "timed_at lv orders pl s" and j: "j < length (pool s)"
    and co: "coord s' = coord s" and sto: "store s' = store s"
    and po: "pool s' = (pool s)[j := task_at (orders ! j) g']"
    and tr: "trace s' = (Suc j, i) # trace s"
    and sp: "spawned (advance (Suc j) i (timeline_of (trace s))) = spawned (timeline_of (trace s))"
    and cl: "\<And>tid. tid \<noteq> Suc j \<Longrightarrow>
               clock (advance (Suc j) i (timeline_of (trace s))) tid =
               clock (timeline_of (trace s)) tid"
    and lo: "last_done (timeline_of (trace s)) \<le>
               last_done (advance (Suc j) i (timeline_of (trace s)))"
    and hi: "last_done (advance (Suc j) i (timeline_of (trace s))) \<le> longest orders"
    and mine: "clock (advance (Suc j) i (timeline_of (trace s))) (Suc j) =
               (if has_slept g' then nap (PrepTime (orders ! j)) else 0)"
    and over: "g' = Over \<Longrightarrow>
               nap (PrepTime (orders ! j)) \<le> last_done (advance (Suc j) i (timeline_of (trace s)))"
  shows "timed lv orders s'"
proof -
  define tm where "tm = timeline_of (trace s)"
  define tm' where "tm' = advance (Suc j) i tm"
  from tr have tm': "timeline_of (trace s') = tm'" by (simp add: tm'_def tm_def)
  from ta have tt: "tasks_timed orders tm (pool s)" and pl: "placed lv orders pl s"
    by (simp_all add: timed_at_def tm_def)
  have tt': "tasks_timed orders tm' (pool s')"
    unfolding po
    by (rule tasks_timed_move[OF tt j])
       (use cl lo mine over in \<open>simp_all add: tm'_def tm_def\<close>)
  have pl': "placed lv orders pl s'"
    by (rule placed_task_step[OF pl _ sto tr]) (simp add: po)
  have aw: "await_returned s' = await_returned s"
    using tr by (simp add: await_returned_def)
  from ta have "timed_at lv orders pl s'"
    using tt' pl' aw co sp cl[of 0] lo hi
    by (simp add: timed_at_def tm' po) (simp add: tm'_def tm_def)
  then show ?thesis by (auto simp: timed_def)
qed

lemma timed_task_step:
  assumes ta: "timed_at lv orders pl s" and st: "step (Suc j) s = Some s'"
  shows "timed lv orders s'"
proof -
  from st obtain i t where j: "j < length (pool s)"
    and nx: "next_stmt (pool s ! j) = Some (i, t)"
    and ds: "do_stmt (Suc j) i t s = Some s'" by (rule step_pool)
  define tm where "tm = timeline_of (trace s)"
  from ta j obtain g where g: "pool s ! j = task_at (orders ! j) g"
    and cj: "clock tm (Suc j) = (if has_slept g then nap (PrepTime (orders ! j)) else 0)"
    by (auto simp: timed_at_def tasks_timed_def tm_def)
  from ta have lo: "0 \<le> last_done tm" and hi: "last_done tm \<le> longest orders"
    and pl: "placed lv orders pl s" by (simp_all add: timed_at_def tm_def)
  from placed_length[OF pl] j have jo: "j < length orders" by simp
  note nl = nap_le_longest[OF jo]
  show ?thesis
  proof (cases g)
    case Fresh
    with g nx ds show ?thesis
      by (intro timed_task_move[OF ta j, where g' = Deferred and i = "Defer WgDone"])
         (use cj hi in \<open>auto simp: next_stmt_def commit_def tm_def\<close>)
  next
    case Deferred
    with g nx ds show ?thesis
      by (intro timed_task_move[OF ta j, where g' = Called
            and i = "Do (ProcessOrder (Lit (orders ! j)))"])
         (use cj hi in \<open>auto simp: next_stmt_def commit_def tm_def\<close>)
  next
    case Called
    with g nx ds show ?thesis
      by (intro timed_task_move[OF ta j, where g' = Printed
            and i = "Do (PrintfOrder ''Order %d: Started processing'' (Lit (orders ! j)))"])
         (use cj hi in \<open>auto simp: next_stmt_def commit_def tm_def processOrder_02_def\<close>)
  next
    case Printed
    with g nx ds show ?thesis
      by (intro timed_task_move[OF ta j, where g' = Slept
            and i = "Do (TimeSleepPrep (Lit (orders ! j)))"])
         (use cj hi in \<open>auto simp: next_stmt_def commit_def tm_def processOrder_02_def\<close>)
  next
    case Slept
    with g nx ds show ?thesis
      by (intro timed_task_move[OF ta j, where g' = Ready
            and i = "Do (PrintfOrder ''Order %d: Ready for pickup! Time taken: %v''
                       (Lit (orders ! j)))"])
         (use cj hi in \<open>auto simp: next_stmt_def commit_def tm_def processOrder_02_def\<close>)
  next
    case Ready
    with g nx ds consider "s' = s\<lparr>panicked := True\<rparr>"
      | v where "s' = (commit (Suc j) (Do WgDone) \<lparr>code = [], deferred = []\<rparr> s)\<lparr>wg := v\<rparr>"
      by (auto simp: next_stmt_def split: option.splits)
    then show ?thesis
    proof cases
      case 1
      with timed_panicked[OF ta] show ?thesis by simp
    next
      case 2
      then show ?thesis
        by (intro timed_task_move[OF ta j, where g' = Over and i = "Do WgDone"])
           (use cj hi nl Ready in \<open>auto simp: commit_def tm_def\<close>)
    qed
  next
    case Over
    with g nx show ?thesis by (simp add: next_stmt_def)
  qed
qed

lemma timed_step:
  assumes "safe s \<and> timed lv orders s" and "step tid s = Some s'"
  shows "safe s' \<and> timed lv orders s'"
proof
  from assms show "safe s'" by (auto intro: safe_step)
  from assms(1) obtain pl where ta: "timed_at lv orders pl s" and sf: "safe s"
    by (auto simp: timed_def)
  show "timed lv orders s'"
  proof (cases tid)
    case 0
    with assms(2) timed_coord_step[OF sf ta] show ?thesis by simp
  next
    case (Suc j)
    with assms(2) timed_task_step[OF ta] show ?thesis by simp
  qed
qed

lemma timed_init: "timed lv orders (init (goroutinesWithWaitGroup_of lv orders))"
proof -
  have "timed_at lv orders Banner (init (goroutinesWithWaitGroup_of lv orders))"
    by (simp add: timed_at_def init_def await_returned_def tasks_timed_def longest_nonneg)
  then show ?thesis by (auto simp: timed_def)
qed

lemma timed_exec:
  assumes "exec sched (init (goroutinesWithWaitGroup_of lv orders)) = Some s"
  shows "timed lv orders s"
proof -
  have "safe (init (goroutinesWithWaitGroup_of lv orders)) \<and>
        timed lv orders (init (goroutinesWithWaitGroup_of lv orders))"
    by (simp add: safe_init coord_ok_goroutinesWithWaitGroup timed_init)
  from exec_invariant[where I = "\<lambda>s. safe s \<and> timed lv orders s", OF timed_step this assms]
  show ?thesis by simp
qed

lemma elapsed_is_longest:
  assumes "exec sched (init (goroutinesWithWaitGroup_of lv orders)) = Some s"
    and "await_returned s"
  shows "elapsed s = longest orders"
  using timed_exec[OF assms(1)] assms(2) by (auto simp: timed_def timed_at_def elapsed_def clock_of_def)

lemma tasks_end_at_their_delay:
  assumes e: "exec sched (init (goroutinesWithWaitGroup_of lv orders)) = Some s"
    and aw: "await_returned s" and j: "j < length orders"
  shows "j < length (pool s) \<and> finished (pool s ! j) \<and>
         clock_of s (Suc j) = nap (PrepTime (orders ! j))"
proof -
  note inv = reachable_invariants[OF coord_ok_goroutinesWithWaitGroup e]
  from inv(2) aw have "wg s = 0" by (simp add: accounted_def)
  with inv(1) have o: "owed s = 0" by (simp add: safe_def)
  from timed_exec[OF e] obtain pl where ta: "timed_at lv orders pl s" by (auto simp: timed_def)
  with aw have "length (pool s) = length orders"
    by (cases pl) (simp_all add: timed_at_def)
  with j have jp: "j < length (pool s)" by simp
  with o have "owes (pool s ! j) = 0" by (simp add: owed_def sum_list_owes_0)
  then have f: "finished (pool s ! j)" by (simp add: owes_def split: if_splits)
  from ta jp obtain g where g: "pool s ! j = task_at (orders ! j) g"
    and c: "clock_of s (Suc j) = (if has_slept g then nap (PrepTime (orders ! j)) else 0)"
    by (auto simp: timed_at_def tasks_timed_def clock_of_def)
  from f g have "g = Over" by (simp only: finished_task_at)
  with c f jp show ?thesis by simp
qed

lemma orders_02_delays:
  "map PrepTime orders_02 = [2 * Second, 3 * Second, 1 * Second, 4 * Second, 2 * Second]"
  "longest orders_02 = 4 * Second" "sum_list (map PrepTime orders_02) = 12 * Second"
  by (simp_all add: orders_02_def nap_def Second_def)

lemma sequential_run_takes_the_sum:
  "case exec (replicate 28 0) (init (sequentialProcessing lv)) of
     None \<Rightarrow> False
   | Some s \<Rightarrow> finished (coord s) \<and> pool s = [] \<and> elapsed s = 12 * Second"
proof (cases lv)
  case PerLoop
  have "case exec (replicate 28 0) (init (sequentialProcessing PerLoop)) of
     None \<Rightarrow> False
   | Some s \<Rightarrow> finished (coord s) \<and> pool s = [] \<and> elapsed s = 12 * Second"
    by code_simp
  with PerLoop show ?thesis by simp
next
  case PerIteration
  have "case exec (replicate 28 0) (init (sequentialProcessing PerIteration)) of
     None \<Rightarrow> False
   | Some s \<Rightarrow> finished (coord s) \<and> pool s = [] \<and> elapsed s = 12 * Second"
    by code_simp
  with PerIteration show ?thesis by simp
qed

lemma tasks_under_way_together:
  "case exec all_started (init (goroutinesWithWaitGroup lv)) of
     None \<Rightarrow> False
   | Some s \<Rightarrow> started (trace s) = 5 \<and> signalled (trace s) = 0 \<and>
       list_all (\<lambda>t. \<not> finished t) (pool s)"
proof (cases lv)
  case PerLoop
  have "case exec all_started (init (goroutinesWithWaitGroup PerLoop)) of
     None \<Rightarrow> False
   | Some s \<Rightarrow> started (trace s) = 5 \<and> signalled (trace s) = 0 \<and>
       list_all (\<lambda>t. \<not> finished t) (pool s)"
    by code_simp
  with PerLoop show ?thesis by simp
next
  case PerIteration
  have "case exec all_started (init (goroutinesWithWaitGroup PerIteration)) of
     None \<Rightarrow> False
   | Some s \<Rightarrow> started (trace s) = 5 \<and> signalled (trace s) = 0 \<and>
       list_all (\<lambda>t. \<not> finished t) (pool s)"
    by code_simp
  with PerIteration show ?thesis by simp
qed

section \<open>The claims\<close>

subsection \<open>The barrier of goroutinesWithWaitGroup\<close>

text \<open>
  C1. For every batch of N orders (N may be 0) and every schedule of
  \<open>goroutinesWithWaitGroup\<close>: in a state in which the coordinator's \<open>Wait\<close> has
  returned, N \<open>Done\<close> calls have been executed, N goroutines have been launched, and
  each of them has executed its \<open>Done\<close>. \<open>Wait\<close> never returns before all N signals.
\<close>

theorem await_after_all_signals:
  assumes "exec sched (init (goroutinesWithWaitGroup_of lv orders)) = Some s"
    and "await_returned s"
  shows "signalled (trace s) = length orders \<and> length (pool s) = length orders \<and>
         (\<forall>j < length orders. signals_of (Suc j) (trace s) = 1)"
proof -
  note inv = reachable_invariants[OF coord_ok_goroutinesWithWaitGroup assms(1)]
  from inv(1) have ow: "int (owed s) \<le> wg s" by (simp add: safe_def)
  from inv(2) assms(2) have w: "wg s = 0" and q: "quiet (code (coord s))"
    and r: "registered (trace s) + regs (code (coord s)) = int (length orders)"
    and a: "wg s + int (signalled (trace s)) = registered (trace s)"
    and l: "launched (trace s) = length (pool s)"
       "signalled (trace s) + owed s = launched (trace s)"
    by (simp_all add: accounted_def regs_goroutinesWithWaitGroup)
  from w ow have o: "owed s = 0" by simp
  from q r a w have sg: "signalled (trace s) = length orders" by (simp add: quiet_regs)
  with l o have len: "length (pool s) = length orders" by simp
  have "signals_of (Suc j) (trace s) = 1" if "j < length orders" for j
  proof -
    from that len have j: "j < length (pool s)" by simp
    with o have "owes (pool s ! j) = 0" by (simp add: owed_def sum_list_owes_0)
    with inv(3) j show ?thesis by (auto simp: per_task_def)
  qed
  with sg len show ?thesis by simp
qed

theorem await_after_all_signals_witness:
  "\<exists>s. exec tasks_in_turn (init (goroutinesWithWaitGroup PerLoop)) = Some s \<and>
       await_returned s \<and> signalled (trace s) = 5 \<and> length (pool s) = 5 \<and>
       signals_of 1 (trace s) = 1 \<and> signals_of 5 (trace s) = 1"
proof -
  have "case exec tasks_in_turn (init (goroutinesWithWaitGroup PerLoop)) of
          None \<Rightarrow> False | Some s \<Rightarrow> await_returned s"
    by code_simp
  then obtain s where e: "exec tasks_in_turn (init (goroutinesWithWaitGroup PerLoop)) = Some s"
    and a: "await_returned s" by (auto dest: ran)
  from await_after_all_signals[OF e[unfolded goroutinesWithWaitGroup_def] a]
  have n: "signalled (trace s) = length orders_02" "length (pool s) = length orders_02"
    and each: "\<And>j. j < length orders_02 \<Longrightarrow> signals_of (Suc j) (trace s) = 1"
    by simp_all
  from n each[of 0] each[of 4]
  have "signalled (trace s) = 5 \<and> length (pool s) = 5 \<and>
        signals_of 1 (trace s) = 1 \<and> signals_of 5 (trace s) = 1"
    by (simp add: orders_02_def)
  with e a show ?thesis by blast
qed

text \<open>
  C4. In every state \<open>goroutinesWithWaitGroup\<close> can reach, on every batch and under every
  schedule, the counter is not negative and no panic has occurred; the counter is the
  registrations made less the signals made; every registration was made by the
  coordinator, before the launch it stands for; the coordinator never signals; a
  launched goroutine has signalled once when it has finished and not at all before.
\<close>

theorem pending_never_negative:
  assumes "exec sched (init (goroutinesWithWaitGroup_of lv orders)) = Some s"
  shows "0 \<le> wg s \<and> \<not> panicked s \<and>
         wg s = registered (trace s) - int (signalled (trace s)) \<and>
         registered_before_launch (trace s) \<and>
         signals_of 0 (trace s) = 0 \<and>
         (\<forall>j < length (pool s).
            signals_of (Suc j) (trace s) = (if finished (pool s ! j) then 1 else 0))"
proof -
  note inv = reachable_invariants[OF coord_ok_goroutinesWithWaitGroup assms(1)]
  from inv(1) have "0 \<le> wg s" "\<not> panicked s" by (simp_all add: safe_def)
  moreover from inv(2) have "wg s = registered (trace s) - int (signalled (trace s))"
    "registered_before_launch (trace s)" by (simp_all add: accounted_def)
  moreover from inv(3) have "signals_of 0 (trace s) = 0"
    "\<forall>j < length (pool s).
       signals_of (Suc j) (trace s) = (if finished (pool s ! j) then 1 else 0)"
    by (auto simp: per_task_def owes_def split: if_splits)
  ultimately show ?thesis by simp
qed

theorem pending_never_negative_witness:
  "\<exists>s. exec half_way (init (goroutinesWithWaitGroup PerIteration)) = Some s \<and>
       length (pool s) = 3 \<and> finished (pool s ! 0) \<and> \<not> finished (pool s ! 1) \<and>
       wg s = 2 \<and> \<not> panicked s \<and> registered (trace s) = 3 \<and> signalled (trace s) = 1 \<and>
       registered_before_launch (trace s) \<and> signals_of 0 (trace s) = 0 \<and>
       signals_of 1 (trace s) = 1 \<and> signals_of 2 (trace s) = 0"
proof -
  have "case exec half_way (init (goroutinesWithWaitGroup PerIteration)) of
          None \<Rightarrow> False
        | Some s \<Rightarrow> length (pool s) = 3 \<and> finished (pool s ! 0) \<and> \<not> finished (pool s ! 1) \<and>
            wg s = 2 \<and> signalled (trace s) = 1"
    by code_simp
  then obtain s where e: "exec half_way (init (goroutinesWithWaitGroup PerIteration)) = Some s"
    and c: "length (pool s) = 3" "finished (pool s ! 0)" "\<not> finished (pool s ! 1)"
      "wg s = 2" "signalled (trace s) = 1"
    by (auto dest: ran)
  from pending_never_negative[OF e[unfolded goroutinesWithWaitGroup_def]]
  have p: "\<not> panicked s" "wg s = registered (trace s) - int (signalled (trace s))"
      "registered_before_launch (trace s)" "signals_of 0 (trace s) = 0"
    and each: "\<And>j. j < length (pool s) \<Longrightarrow>
      signals_of (Suc j) (trace s) = (if finished (pool s ! j) then 1 else 0)"
    by simp_all
  from p c each[of 0] each[of 1]
  have "\<not> panicked s \<and> registered (trace s) = 3 \<and> registered_before_launch (trace s) \<and>
        signals_of 0 (trace s) = 0 \<and> signals_of 1 (trace s) = 1 \<and> signals_of 2 (trace s) = 0"
    by (simp add: numeral_2_eq_2)
  with e c show ?thesis by blast
qed

subsection \<open>Registration and launch\<close>




subsection \<open>The descriptor a goroutine observes\<close>

text \<open>
  C3, at \<open>goroutineRuntimeInfo\<close> with the loop variable of Go up to 1.21: the coordinator
  finishes the loop before a goroutine takes its first step, all goroutines then run
  to their end, and every one of the five has passed order 5 to \<open>processOrder\<close>. No
  launch passes an argument: the function literal has no parameter and reads the loop
  variable when it runs.
\<close>

theorem goroutineRuntimeInfo_shared_loop_variable:
  "(case exec loop_first (init (goroutineRuntimeInfo PerLoop)) of
      None \<Rightarrow> False
    | Some s \<Rightarrow>
        finished (coord s) \<and> list_all finished (pool s) \<and>
        launch_args s = [None, None, None, None, None] \<and>
        observed s =
          [(1, \<lparr>ID = 5, PrepTime = 2 * Second\<rparr>), (2, \<lparr>ID = 5, PrepTime = 2 * Second\<rparr>),
           (3, \<lparr>ID = 5, PrepTime = 2 * Second\<rparr>), (4, \<lparr>ID = 5, PrepTime = 2 * Second\<rparr>),
           (5, \<lparr>ID = 5, PrepTime = 2 * Second\<rparr>)])"
  by code_simp

text \<open>
  The same schedule under the loop variable of Go 1.22, and the same schedule of
  \<open>goroutinesWithWaitGroup\<close>, which passes the order as an argument: every goroutine
  observes its own order.
\<close>

lemma goroutineRuntimeInfo_per_iteration:
  "(case exec loop_first (init (goroutineRuntimeInfo PerIteration)) of
      None \<Rightarrow> False
    | Some s \<Rightarrow>
        launch_args s = [None, None, None, None, None] \<and> map snd (observed s) = orders_02)"
  by code_simp

lemma goroutinesWithWaitGroup_by_value:
  "(case exec tasks_in_turn (init (goroutinesWithWaitGroup PerLoop)) of
      None \<Rightarrow> False
    | Some s \<Rightarrow>
        launch_args s = map (\<lambda>v. Some (Lit v)) orders_02 \<and> map snd (observed s) = orders_02)"
  by code_simp

subsection \<open>The deferred signal\<close>

text \<open>
  C5. In every state that a schedule of \<open>goroutinesWithWaitGroup\<close>,
  \<open>anonymousGoroutines\<close> or \<open>goroutineRuntimeInfo\<close> reaches, whatever the batch, every
  goroutine launched so far has executed \<open>Done\<close> once if it has finished and not at all
  if it has not; no \<open>Done\<close> stands in the code it has still to run: the one it owes is
  deferred, or its next statement is \<^verbatim>\<open>defer wg.Done()\<close>. Run on from that state it reaches
  its end without a panic, with exactly one \<open>Done\<close> executed. And if its \<open>Done\<close> is
  deferred and it returned at this point, before the rest of its body, it would still
  reach its end with exactly one \<open>Done\<close> executed, as its last statement.
\<close>

theorem signal_once_on_every_exit:
  assumes "prog = goroutinesWithWaitGroup_of lv orders \<or> prog = anonymousGoroutines \<or>
           prog = goroutineRuntimeInfo_of lv orders"
    and "exec sched (init prog) = Some s"
    and "j < length (pool s)"
  shows "signals_of (Suc j) (trace s) = (if finished (pool s ! j) then 1 else 0) \<and>
         Do WgDone \<notin> set (code (pool s ! j)) \<and>
         (finished (pool s ! j) \<or> deferred (pool s ! j) = [WgDone] \<or>
          (\<exists>rest. code (pool s ! j) = Defer WgDone # rest \<and> deferred (pool s ! j) = [])) \<and>
         (\<exists>n s'. exec (replicate n (Suc j)) s = Some s' \<and> \<not> panicked s' \<and>
            finished (pool s' ! j) \<and> signals_of (Suc j) (trace s') = 1) \<and>
         (deferred (pool s ! j) = [WgDone] \<longrightarrow>
            (\<exists>n s'. exec (replicate n (Suc j)) (return_now j s) = Some s' \<and> \<not> panicked s' \<and>
               finished (pool s' ! j) \<and> signals_of (Suc j) (trace s') = 1 \<and>
               hd (trace s') = (Suc j, Do WgDone)))"
proof -
  note inv = reachable_invariants[OF coord_ok_waitgroup_functions[OF assms(1)] assms(2)]
  from inv(1) assms(3) have np: "\<not> panicked s" and ow: "int (owed s) \<le> wg s"
    and ok: "thread_ok (pool s ! j)" by (simp_all add: safe_def list_all_length)
  from inv(3) assms(3) have sg: "signals_of (Suc j) (trace s) + owes (pool s ! j) = 1"
    by (simp add: per_task_def)
  then have a: "signals_of (Suc j) (trace s) = (if finished (pool s ! j) then 1 else 0)"
    by (simp add: owes_def split: if_splits)
  have wpos: "0 < wg s" if "\<not> finished (pool s ! j)"
  proof -
    from that have "owes (pool s ! j) = 1" by (simp add: owes_def)
    with owes_le_sum[OF assms(3)] ow show ?thesis by (simp add: owed_def)
  qed
  have q: "quiet c \<Longrightarrow> Do WgDone \<notin> set c" for c
    by (auto simp: quiet_def list_all_iff)
  from ok have b: "Do WgDone \<notin> set (code (pool s ! j))"
    by (auto simp: thread_ok_def scoped_signal_iff finished_def dest: q)
  from ok have c: "finished (pool s ! j) \<or> deferred (pool s ! j) = [WgDone] \<or>
          (\<exists>rest. code (pool s ! j) = Defer WgDone # rest \<and> deferred (pool s ! j) = [])"
    by (auto simp: thread_ok_def scoped_signal_iff)
  have d: "\<exists>n s'. exec (replicate n (Suc j)) s = Some s' \<and> \<not> panicked s' \<and>
            finished (pool s' ! j) \<and> signals_of (Suc j) (trace s') = 1"
  proof (cases "finished (pool s ! j)")
    case True
    with a np have "exec (replicate 0 (Suc j)) s = Some s \<and> \<not> panicked s \<and>
            finished (pool s ! j) \<and> signals_of (Suc j) (trace s) = 1" by simp
    then show ?thesis by blast
  next
    case False
    with a have z: "signals_of (Suc j) (trace s) = 0" by simp
    from False ok consider
        (fresh) rest where "code (pool s ! j) = Defer WgDone # rest" "quiet rest"
          "deferred (pool s ! j) = []"
      | (started) "quiet (code (pool s ! j))" "deferred (pool s ! j) = [WgDone]"
      by (auto simp: thread_ok_def scoped_signal_iff)
    then show ?thesis
    proof cases
      case fresh
      then have "pool s ! j = \<lparr>code = Defer WgDone # rest, deferred = []\<rparr>" by simp
      from defer_done_runs[OF fresh(2) np wpos[OF False] assms(3) this] z
      show ?thesis by auto
    next
      case started
      then have "pool s ! j = \<lparr>code = code (pool s ! j), deferred = [WgDone]\<rparr>" by simp
      from deferred_done_runs[OF started(1) np wpos[OF False] assms(3) this] z
      show ?thesis by auto
    qed
  qed
  have e: "\<exists>n s'. exec (replicate n (Suc j)) (return_now j s) = Some s' \<and> \<not> panicked s' \<and>
               finished (pool s' ! j) \<and> signals_of (Suc j) (trace s') = 1 \<and>
               hd (trace s') = (Suc j, Do WgDone)"
    if df: "deferred (pool s ! j) = [WgDone]"
  proof -
    from df have nf: "\<not> finished (pool s ! j)" by (simp add: finished_def)
    with a have z: "signals_of (Suc j) (trace s) = 0" by simp
    from df ok have qc: "quiet (code (pool s ! j))"
      by (auto simp: thread_ok_def scoped_signal_iff finished_def)
    then have q': "quiet (Return # code (pool s ! j))" by (simp add: quiet_def)
    have r: "\<not> panicked (return_now j s)" "0 < wg (return_now j s)"
      "j < length (pool (return_now j s))"
      "pool (return_now j s) ! j = \<lparr>code = Return # code (pool s ! j), deferred = [WgDone]\<rparr>"
      "trace (return_now j s) = trace s"
      using np wpos[OF nf] assms(3) df by (simp_all add: return_now_def)
    from deferred_done_runs[OF q' r(1,2,3,4)] z r(5) show ?thesis by auto
  qed
  from a b c d e show ?thesis by blast
qed

theorem signal_once_on_every_exit_witness:
  "\<exists>s. exec half_way (init (goroutinesWithWaitGroup PerIteration)) = Some s \<and>
       1 < length (pool s) \<and> deferred (pool s ! 1) = [WgDone] \<and>
       signals_of 2 (trace s) = 0 \<and>
       (\<exists>n s'. exec (replicate n 2) s = Some s' \<and> \<not> panicked s' \<and>
          finished (pool s' ! 1) \<and> signals_of 2 (trace s') = 1) \<and>
       (\<exists>n s'. exec (replicate n 2) (return_now 1 s) = Some s' \<and> \<not> panicked s' \<and>
          finished (pool s' ! 1) \<and> signals_of 2 (trace s') = 1 \<and>
          hd (trace s') = (2, Do WgDone))"
proof -
  have "case exec half_way (init (goroutinesWithWaitGroup PerIteration)) of
          None \<Rightarrow> False
        | Some s \<Rightarrow> 1 < length (pool s) \<and> deferred (pool s ! 1) = [WgDone] \<and>
            \<not> finished (pool s ! 1)"
    by code_simp
  then obtain s where e: "exec half_way (init (goroutinesWithWaitGroup PerIteration)) = Some s"
    and j: "1 < length (pool s)" and d: "deferred (pool s ! 1) = [WgDone]"
    and nf: "\<not> finished (pool s ! 1)" by (auto dest: ran)
  from signal_once_on_every_exit[where lv = PerIteration and orders = orders_02,
      OF _ e[unfolded goroutinesWithWaitGroup_def] j] d nf
  have "signals_of 2 (trace s) = 0 \<and>
       (\<exists>n s'. exec (replicate n 2) s = Some s' \<and> \<not> panicked s' \<and>
          finished (pool s' ! 1) \<and> signals_of 2 (trace s') = 1) \<and>
       (\<exists>n s'. exec (replicate n 2) (return_now 1 s) = Some s' \<and> \<not> panicked s' \<and>
          finished (pool s' ! 1) \<and> signals_of 2 (trace s') = 1 \<and>
          hd (trace s') = (2, Do WgDone))"
    by (simp add: numeral_2_eq_2)
  with e j d show ?thesis by blast
qed

subsection \<open>The WaitGroup itself\<close>

text \<open>
  C6. \<open>Wait\<close> returns at once when the counter is zero. On an empty batch the coordinator
  of \<open>goroutinesWithWaitGroup\<close> takes its first three steps (the banner, the clock, the
  \<open>Wait\<close>) without any other goroutine, none exists, and \<open>Wait\<close> has returned. In any
  state with a zero counter a coordinator that stands at \<open>Wait\<close> steps over it and
  leaves the counter zero, and one that stands at two \<open>Wait\<close> calls in a row steps over
  both.
\<close>

theorem await_returns_at_zero:
  "(case exec [0, 0, 0] (init (goroutinesWithWaitGroup_of lv [])) of
      None \<Rightarrow> False
    | Some s \<Rightarrow> await_returned s \<and> pool s = [] \<and> wg s = 0 \<and> \<not> panicked s) \<and>
   (\<not> panicked s \<and> wg s = 0 \<and> code (coord s) = Do WgWait # r \<longrightarrow>
      (\<exists>s'. step 0 s = Some s' \<and> code (coord s') = r \<and> wg s' = 0 \<and> \<not> panicked s' \<and>
            trace s' = (0, Do WgWait) # trace s)) \<and>
   (\<not> panicked s \<and> wg s = 0 \<and> code (coord s) = Do WgWait # Do WgWait # r \<longrightarrow>
      (\<exists>s'. exec [0, 0] s = Some s' \<and> code (coord s') = r \<and> wg s' = 0 \<and> \<not> panicked s' \<and>
            trace s' = (0, Do WgWait) # (0, Do WgWait) # trace s))"
proof -
  have a: "case exec [0, 0, 0] (init (goroutinesWithWaitGroup_of lv [])) of
      None \<Rightarrow> False
    | Some s \<Rightarrow> await_returned s \<and> pool s = [] \<and> wg s = 0 \<and> \<not> panicked s"
    by (simp add: goroutinesWithWaitGroup_of_def init_def step_def thread_of_def next_stmt_def
          commit_def wg_wait_def await_returned_def)
  have b: "\<exists>s'. step 0 s = Some s' \<and> code (coord s') = r \<and> wg s' = 0 \<and> \<not> panicked s' \<and>
            trace s' = (0, Do WgWait) # trace s"
    if "\<not> panicked s" "wg s = 0" "code (coord s) = Do WgWait # r" for s r
    using that by (simp add: step_def thread_of_def next_stmt_def commit_def wg_wait_def)
  have c: "\<exists>s'. exec [0, 0] s = Some s' \<and> code (coord s') = r \<and> wg s' = 0 \<and> \<not> panicked s' \<and>
            trace s' = (0, Do WgWait) # (0, Do WgWait) # trace s"
    if "\<not> panicked s" "wg s = 0" "code (coord s) = Do WgWait # Do WgWait # r"
  proof -
    from b[OF that] obtain s1 where s1: "step 0 s = Some s1" "code (coord s1) = Do WgWait # r"
      "wg s1 = 0" "\<not> panicked s1" "trace s1 = (0, Do WgWait) # trace s" by blast
    from b[OF s1(4,3,2)] obtain s2 where "step 0 s1 = Some s2" "code (coord s2) = r"
      "wg s2 = 0" "\<not> panicked s2" "trace s2 = (0, Do WgWait) # trace s1" by blast
    with s1 show ?thesis by simp
  qed
  from a b c show ?thesis by blast
qed

theorem await_returns_at_zero_witness:
  "(\<exists>s'. step 0 (init [Do WgWait, Do WgWait]) = Some s' \<and> code (coord s') = [Do WgWait] \<and>
         wg s' = 0 \<and> \<not> panicked s') \<and>
   (\<exists>s'. exec [0, 0] (init [Do WgWait, Do WgWait]) = Some s' \<and> code (coord s') = [] \<and>
         wg s' = 0 \<and> \<not> panicked s' \<and> trace s' = [(0, Do WgWait), (0, Do WgWait)])"
proof -
  have i: "\<not> panicked (init [Do WgWait, Do WgWait])" "wg (init [Do WgWait, Do WgWait]) = 0"
    "code (coord (init [Do WgWait, Do WgWait])) = Do WgWait # [Do WgWait]"
    "code (coord (init [Do WgWait, Do WgWait])) = Do WgWait # Do WgWait # []"
    "trace (init [Do WgWait, Do WgWait]) = []"
    by (simp_all add: init_def)
  note t = await_returns_at_zero[where lv = PerLoop and s = "init [Do WgWait, Do WgWait]"]
  from t[where r = "[Do WgWait]"] i(1,2,3)
  have "\<exists>s'. step 0 (init [Do WgWait, Do WgWait]) = Some s' \<and> code (coord s') = [Do WgWait] \<and>
         wg s' = 0 \<and> \<not> panicked s'"
    by blast
  moreover from t[where r = "[]"] i(1,2,4,5)
  have "\<exists>s'. exec [0, 0] (init [Do WgWait, Do WgWait]) = Some s' \<and> code (coord s') = [] \<and>
         wg s' = 0 \<and> \<not> panicked s' \<and> trace s' = [(0, Do WgWait), (0, Do WgWait)]"
    by (metis (no_types, lifting))
  ultimately show ?thesis by blast
qed

text \<open>
  C8. In every state any program can reach, the counter is not negative and the signals
  made do not outnumber the registrations. Where they are equal and a goroutine's next
  statement is \<open>Done\<close>, its step panics: the signal is not executed, the counter keeps
  its value, and the program takes no further step.
\<close>

theorem over_signal_detected:
  assumes "exec sched (init prog) = Some s"
  shows "0 \<le> wg s \<and> int (signalled (trace s)) \<le> registered (trace s) \<and>
         (int (signalled (trace s)) = registered (trace s) \<and> \<not> panicked s \<and>
          thread_of s tid = Some t \<and> next_stmt t = Some (Do WgDone, t') \<longrightarrow>
            (\<exists>s'. step tid s = Some s' \<and> panicked s' \<and> wg s' = wg s \<and> trace s' = trace s \<and>
                  (\<forall>tid'. step tid' s' = None)))"
proof -
  from counted_exec[OF assms] have c: "0 \<le> wg s"
    "wg s + int (signalled (trace s)) = registered (trace s)" by (simp_all add: counted_def)
  then have "int (signalled (trace s)) \<le> registered (trace s)" by linarith
  moreover have "\<exists>s'. step tid s = Some s' \<and> panicked s' \<and> wg s' = wg s \<and> trace s' = trace s \<and>
                  (\<forall>tid'. step tid' s' = None)"
    if "int (signalled (trace s)) = registered (trace s)" "\<not> panicked s"
       "thread_of s tid = Some t" "next_stmt t = Some (Do WgDone, t')"
  proof -
    from that(1) c have "wg s = 0" by simp
    with that have "step tid s = Some (s\<lparr>panicked := True\<rparr>)"
      by (simp add: step_def wg_add_def)
    then show ?thesis by (simp add: step_def)
  qed
  ultimately show ?thesis using c by blast
qed

theorem over_signal_detected_witness:
  "\<exists>s. exec [0, 0, 1] (init double_done) = Some s \<and> registered (trace s) = 1 \<and>
       signalled (trace s) = 1 \<and> wg s = 0 \<and>
       (\<exists>s'. step 1 s = Some s' \<and> panicked s' \<and> wg s' = 0 \<and> signalled (trace s') = 1 \<and>
             step 0 s' = None \<and> step 1 s' = None)"
proof -
  have "case exec [0, 0, 1] (init double_done) of
          None \<Rightarrow> False
        | Some s \<Rightarrow> registered (trace s) = 1 \<and> signalled (trace s) = 1 \<and> wg s = 0 \<and>
            \<not> panicked s \<and> thread_of s 1 = Some \<lparr>code = [Do WgDone], deferred = []\<rparr>"
    by code_simp
  then obtain s where e: "exec [0, 0, 1] (init double_done) = Some s"
    and c: "registered (trace s) = 1" "signalled (trace s) = 1" "wg s = 0" "\<not> panicked s"
      "thread_of s 1 = Some \<lparr>code = [Do WgDone], deferred = []\<rparr>"
    by (auto dest: ran)
  have n: "next_stmt \<lparr>code = [Do WgDone], deferred = []\<rparr> =
             Some (Do WgDone, \<lparr>code = [], deferred = []\<rparr>)"
    by (simp add: next_stmt_def)
  from over_signal_detected[OF e, of 1 "\<lparr>code = [Do WgDone], deferred = []\<rparr>"
      "\<lparr>code = [], deferred = []\<rparr>"] c n
  have "\<exists>s'. step 1 s = Some s' \<and> panicked s' \<and> wg s' = 0 \<and> signalled (trace s') = 1 \<and>
             step 0 s' = None \<and> step 1 s' = None"
    by auto
  with e c show ?thesis by blast
qed

subsection \<open>Waiting by sleeping\<close>




subsection \<open>The time of the batch\<close>

text \<open>
  C9. The delays of the five orders are 2, 3, 1, 4 and 2 seconds. On every schedule of
  \<open>goroutinesWithWaitGroup\<close>, with either loop variable, once \<open>Wait\<close> has returned the
  function has taken 4 seconds on the logical clock, the longest delay, and goroutine
  \<open>j\<close> has ended at the delay of order \<open>j\<close>: each has run from time zero, beside the
  others. \<open>sequentialProcessing\<close> takes 12 seconds, the sum, on the same batch. And the
  five goroutines are under way together: a schedule reaches a state in which each has
  printed its first message and none has finished.
\<close>

theorem batch_takes_the_longest_delay:
  assumes "exec sched (init (goroutinesWithWaitGroup lv)) = Some s" and "await_returned s"
  shows "map PrepTime orders_02 = [2 * Second, 3 * Second, 1 * Second, 4 * Second, 2 * Second] \<and>
         elapsed s = 4 * Second \<and>
         (\<forall>j < 5. clock_of s (Suc j) = PrepTime (orders_02 ! j)) \<and>
         (case exec (replicate 28 0) (init (sequentialProcessing lv)) of
            None \<Rightarrow> False
          | Some s2 \<Rightarrow> finished (coord s2) \<and> pool s2 = [] \<and> elapsed s2 = 12 * Second) \<and>
         (case exec all_started (init (goroutinesWithWaitGroup lv)) of
            None \<Rightarrow> False
          | Some s1 \<Rightarrow> started (trace s1) = 5 \<and> signalled (trace s1) = 0 \<and>
              list_all (\<lambda>t. \<not> finished t) (pool s1))"
proof -
  note e = assms(1)[unfolded goroutinesWithWaitGroup_def]
  from elapsed_is_longest[OF e assms(2)] have a: "elapsed s = 4 * Second"
    by (simp add: orders_02_delays)
  have b: "clock_of s (Suc j) = PrepTime (orders_02 ! j)" if "j < 5" for j
  proof -
    from that have j: "j < length orders_02" by (simp add: orders_02_def)
    have "0 \<le> PrepTime (orders_02 ! j)"
      using that by (auto simp: orders_02_def Second_def less_Suc_eq numeral_eq_Suc)
    with tasks_end_at_their_delay[OF e assms(2) j] show ?thesis by (simp add: nap_def)
  qed
  from a b orders_02_delays(1) sequential_run_takes_the_sum[of lv] tasks_under_way_together[of lv]
  show ?thesis by blast
qed

theorem batch_takes_the_longest_delay_witness:
  "\<exists>s. exec tasks_in_turn (init (goroutinesWithWaitGroup PerLoop)) = Some s \<and>
       await_returned s \<and> elapsed s = 4 * Second \<and>
       clock_of s 1 = 2 * Second \<and> clock_of s 4 = 4 * Second"
proof -
  have "case exec tasks_in_turn (init (goroutinesWithWaitGroup PerLoop)) of
          None \<Rightarrow> False | Some s \<Rightarrow> await_returned s"
    by code_simp
  then obtain s where e: "exec tasks_in_turn (init (goroutinesWithWaitGroup PerLoop)) = Some s"
    and a: "await_returned s" by (auto dest: ran)
  from batch_takes_the_longest_delay[OF e a]
  have el: "elapsed s = 4 * Second"
    and each: "\<And>j. j < 5 \<Longrightarrow> clock_of s (Suc j) = PrepTime (orders_02 ! j)"
    by simp_all
  from each[of 0] each[of 3]
  have "clock_of s 1 = 2 * Second \<and> clock_of s 4 = 4 * Second"
    by (simp add: orders_02_def)
  with e a el show ?thesis by blast
qed

subsection \<open>The sequential driver\<close>

text \<open>
  C10. The log of the sequential \<open>main\<close>, on any slice of orders, reads as one complete
  invocation of \<open>processOrder\<close> per order (start message, sleep, completion message,
  nothing in between), in the order of the slice: no order is left out or processed
  twice, and an invocation has ended when the next one starts.
\<close>

theorem sequential_driver_once_each_in_order:
  "invocations (main_01_on orders) = Some orders"
  by (simp add: main_01_on_def range_orders_01_log invocations_runs)

theorem sequential_driver_at_the_literal:
  "invocations main_01 =
     Some [\<lparr>ID = 1, PrepTime = 2 * Second\<rparr>, \<lparr>ID = 2, PrepTime = 3 * Second\<rparr>,
           \<lparr>ID = 3, PrepTime = 1 * Second\<rparr>, \<lparr>ID = 4, PrepTime = 4 * Second\<rparr>,
           \<lparr>ID = 5, PrepTime = 2 * Second\<rparr>]"
  using sequential_driver_once_each_in_order[of orders_01]
  by (simp add: main_01_def orders_01_def)

end
